theory Spec2Isabelle
  imports Complex_Main "HOL-Library.Word"
begin

unbundle bit_operations_syntax

section \<open>Superaccumulators\<close>

text \<open>
  \<^verbatim>\<open>exdot_omp.h\<close> works on superaccumulators: arrays of \<^verbatim>\<open>int64_t\<close> bins, one
  array per thread, laid out one after the other in the vector \<^verbatim>\<open>acc\<close>. A
  superaccumulator is modelled as the list of its bins, the vector \<^verbatim>\<open>acc\<close> as
  the list of the threads' superaccumulators (\<^verbatim>\<open>&acc[tid*BIN_COUNT]\<close> is entry
  \<open>tid\<close>). Bins are 64-bit words: \<open>+\<close> wraps around as the machine addition
  does, \<open>sint\<close> reads a bin as the signed number it stands for.
\<close>

type_synonym superacc = "64 word list"

text \<open>
  Modelled from the spec: the constants of \<^verbatim>\<open>accumulate.h\<close>, which is not
  among the sources. Section 4.1 of the specification gives
  \<^verbatim>\<open>BIN_COUNT = 39\<close>, \<^verbatim>\<open>IMIN = 0\<close>, \<^verbatim>\<open>IMAX = 38\<close> and a digit width of 52 bits.
\<close>

definition BIN_COUNT :: nat where
  "BIN_COUNT = 39"

definition IMIN :: nat where
  "IMIN = 0"

definition IMAX :: nat where
  "IMAX = 38"

definition DIGITS :: nat where
  "DIGITS = 52"

text \<open>
  Modelled from the spec: the number a superaccumulator stands for (its
  logical value), in units of the least significant bit of bin 0. Bin \<open>i\<close> has
  the weight \<open>2 ^ (DIGITS * i)\<close>; the bits of a bin above \<open>DIGITS\<close> overlap the
  next bin.
\<close>

fun logical_value :: "superacc \<Rightarrow> int" where
  "logical_value [] = 0"
| "logical_value (b # bs) = sint b + 2 ^ DIGITS * logical_value bs"

text \<open>
  Signed overflow of an \<^verbatim>\<open>int64_t\<close> addition is undefined behaviour in C++, and
  the specification makes it a violated precondition (sections 4.1 and 7).
  The model reports it as a fault instead of giving a result. The other two
  faults are that of the spin-wait of \<^verbatim>\<open>ReductionStep\<close> and that of the
  shifts of \<^verbatim>\<open>Reduction\<close>, see below.
\<close>

datatype fault = SignedOverflow | NotReady | ShiftRange

definition add_ok :: "64 word \<Rightarrow> 64 word \<Rightarrow> bool" where
  "add_ok x y \<longleftrightarrow> - (2 ^ 63) \<le> sint x + sint y \<and> sint x + sint y < 2 ^ 63"

text \<open>
  Modelled from the spec: \<^verbatim>\<open>Normalize\<close> of \<^verbatim>\<open>accumulate.h\<close> (section 4.1: it
  sweeps the bins from \<^verbatim>\<open>imin\<close> through \<^verbatim>\<open>imax\<close> and propagates the carry
  between adjacent bins so that every intermediate bin lies in the canonical
  range; section 3: the last bin carries the sign of the whole number). The
  carry of a bin is its value shifted right arithmetically by \<open>DIGITS\<close>, the
  bin keeps its low \<open>DIGITS\<close> bits, and the last bin of the range takes the
  carry that reaches it without giving one up.
\<close>

fun carry_sweep :: "64 word \<Rightarrow> superacc \<Rightarrow> fault + superacc" where
  "carry_sweep c [] = Inr []"
| "carry_sweep c [b] = (if add_ok b c then Inr [b + c] else Inl SignedOverflow)"
| "carry_sweep c (b # b' # bs) =
     (if add_ok b c
      then (case carry_sweep (signed_drop_bit DIGITS (b + c)) (b' # bs) of
              Inl e \<Rightarrow> Inl e
            | Inr r \<Rightarrow> Inr (take_bit DIGITS (b + c) # r))
      else Inl SignedOverflow)"

definition Normalize :: "superacc \<Rightarrow> nat \<Rightarrow> nat \<Rightarrow> fault + superacc" where
  "Normalize accumulator imin imax =
     (case carry_sweep 0 (take (Suc imax - imin) (drop imin accumulator)) of
        Inl e \<Rightarrow> Inl e
      | Inr m \<Rightarrow> Inr (take imin accumulator @ m @ drop (Suc imax) accumulator))"

text \<open>Every bin but the last in its canonical range.\<close>

definition normalized :: "superacc \<Rightarrow> bool" where
  "normalized a \<longleftrightarrow> list_all (\<lambda>b. 0 \<le> sint b \<and> sint b < 2 ^ DIGITS) (butlast a)"

text \<open>
  A bound on the bins under which neither \<^verbatim>\<open>Normalize\<close> nor the merge of two
  normalized superaccumulators overflows.
\<close>

definition small_bins :: "superacc \<Rightarrow> bool" where
  "small_bins a \<longleftrightarrow> list_all (\<lambda>b. - (2 ^ 60) \<le> sint b \<and> sint b \<le> 2 ^ 60) a"

section \<open>ReductionStep\<close>

text \<open>
  The loop \<^verbatim>\<open>for(int i = IMIN; i <= IMAX; ++i) acc1[i] += acc2[i];\<close> of
  \<^verbatim>\<open>ReductionStep\<close>, the merge of the specification (\<^verbatim>\<open>MergeFrom\<close>), with the
  machine's wrapping addition.
\<close>

function MergeFrom_loop :: "nat \<Rightarrow> nat \<Rightarrow> superacc \<Rightarrow> superacc \<Rightarrow> superacc" where
  "MergeFrom_loop i imax acc1 acc2 =
     (if i \<le> imax
      then MergeFrom_loop (i + 1) imax (acc1[i := acc1 ! i + acc2 ! i]) acc2
      else acc1)"
  by pat_completeness auto
termination
  by (relation "measure (\<lambda>(i, imax, acc1, acc2). Suc imax - i)") auto

declare MergeFrom_loop.simps [simp del]

definition MergeFrom :: "superacc \<Rightarrow> superacc \<Rightarrow> superacc" where
  "MergeFrom acc1 acc2 = MergeFrom_loop IMIN IMAX acc1 acc2"

text \<open>No addition of the loop overflows, and every bin it touches exists.\<close>

definition MergeFrom_ok :: "superacc \<Rightarrow> superacc \<Rightarrow> bool" where
  "MergeFrom_ok acc1 acc2 \<longleftrightarrow>
     IMAX < length acc1 \<and> IMAX < length acc2 \<and>
     list_all (\<lambda>i. add_ok (acc1 ! i) (acc2 ! i)) [IMIN..<Suc IMAX]"

text \<open>
  \<^verbatim>\<open>ReductionStep(step, acc1, acc2, ready)\<close>. With the vector class library
  (\<open>without_vcl = False\<close>) it first spins until \<^verbatim>\<open>*ready >= step\<close>; \<open>rdy\<close> is the
  value of the counter when the step is scheduled, and a step scheduled before
  its partner has published \<open>step\<close> is the fault \<open>NotReady\<close>. The result is the
  pair of the two superaccumulators after the call.
\<close>

definition ReductionStep ::
  "bool \<Rightarrow> nat \<Rightarrow> superacc \<Rightarrow> superacc \<Rightarrow> nat \<Rightarrow> fault + (superacc \<times> superacc)" where
  "ReductionStep without_vcl step acc1 acc2 rdy =
     (if \<not> without_vcl \<and> rdy < step then Inl NotReady
      else case Normalize acc1 IMIN IMAX of
        Inl e \<Rightarrow> Inl e
      | Inr n1 \<Rightarrow>
          (case Normalize acc2 IMIN IMAX of
             Inl e \<Rightarrow> Inl e
           | Inr n2 \<Rightarrow>
               if MergeFrom_ok n1 n2 then Inr (MergeFrom n1 n2, n2)
               else Inl SignedOverflow))"


section \<open>The shared arrays and the tree reduction\<close>

text \<open>
  The two vectors shared by the threads of \<^verbatim>\<open>ExDOTFPE\<close>: \<^verbatim>\<open>acc\<close>, one
  superaccumulator per thread, and \<^verbatim>\<open>ready\<close>, one counter per thread
  (\<^verbatim>\<open>ready[tid * linesize]\<close> is entry \<open>tid\<close>).
\<close>

record shared =
  acc :: "superacc list"
  ready :: "nat list"

text \<open>
  The call \<^verbatim>\<open>ReductionStep(s, &acc[tid*BIN_COUNT], &acc[tid2*BIN_COUNT],
  &ready[tid2 * linesize])\<close> on the shared arrays.
\<close>

definition call_ReductionStep ::
  "bool \<Rightarrow> nat \<Rightarrow> nat \<Rightarrow> nat \<Rightarrow> shared \<Rightarrow> fault + shared" where
  "call_ReductionStep without_vcl s tid tid2 st =
     (case ReductionStep without_vcl s (acc st ! tid) (acc st ! tid2) (ready st ! tid2) of
        Inl e \<Rightarrow> Inl e
      | Inr (a1, a2) \<Rightarrow> Inr (st\<lparr>acc := (acc st)[tid := a1, tid2 := a2]\<rparr>))"

text \<open>
  One iteration of the loop of \<^verbatim>\<open>Reduction(tid, tnum, ready, acc, linesize)\<close>
  is the increment \<^verbatim>\<open>++*c\<close> of the thread's own counter (\<open>publish\<close>) followed
  by the block under \<^verbatim>\<open>if(tid % (1 << s) == 0)\<close> (\<open>merge_step\<close>).
\<close>

definition publish :: "nat \<Rightarrow> shared \<Rightarrow> shared" where
  "publish tid st = st\<lparr>ready := (ready st)[tid := ready st ! tid + 1]\<rparr>"

definition merge_step :: "bool \<Rightarrow> nat \<Rightarrow> nat \<Rightarrow> nat \<Rightarrow> shared \<Rightarrow> fault + shared" where
  "merge_step without_vcl tnum s tid st =
     (if tid mod 2 ^ s = 0
      then (let tid2 = tid OR 2 ^ (s - 1)
            in if tid2 < tnum then call_ReductionStep without_vcl s tid tid2 st
               else Inr st)
      else Inr st)"

text \<open>
  The threads run \<^verbatim>\<open>Reduction\<close> side by side. Level \<open>s\<close> of thread \<open>tid\<close> reads
  and writes \<^verbatim>\<open>acc[tid]\<close> and \<^verbatim>\<open>acc[tid2]\<close> only, after the spin-wait on
  \<^verbatim>\<open>ready[tid2]\<close> (or after the barrier of the scalar build) has made sure that
  thread \<open>tid2\<close> has finished its levels below \<open>s\<close>. The model runs the threads
  level by level: at level \<open>s\<close> every thread publishes, then the threads take
  their merge step in the order of their numbers.
\<close>

fun run_threads ::
  "(nat \<Rightarrow> shared \<Rightarrow> fault + shared) \<Rightarrow> nat list \<Rightarrow> shared \<Rightarrow> fault + shared" where
  "run_threads f [] st = Inr st"
| "run_threads f (t # ts) st =
     (case f t st of Inl e \<Rightarrow> Inl e | Inr st' \<Rightarrow> run_threads f ts st')"

definition Reduction_level :: "bool \<Rightarrow> nat \<Rightarrow> nat \<Rightarrow> shared \<Rightarrow> fault + shared" where
  "Reduction_level without_vcl tnum s st =
     run_threads (merge_step without_vcl tnum s) [0..<tnum] (fold publish [0..<tnum] st)"

text \<open>
  The loop \<^verbatim>\<open>for(unsigned int s = 1; (unsigned)(1 << (s-1)) < tnum; ++s)\<close>.
  The shifts are those of a 32-bit \<^verbatim>\<open>int\<close>: the body would shift by 32 at
  \<open>s = 32\<close>, which C++ leaves undefined (fault \<open>ShiftRange\<close>); this level is
  reached with more than \<open>2 ^ 31\<close> threads only.
\<close>

function Reduction_levels :: "bool \<Rightarrow> nat \<Rightarrow> nat \<Rightarrow> shared \<Rightarrow> fault + shared" where
  "Reduction_levels without_vcl tnum s st =
     (if 2 ^ (s - 1) < tnum
      then (if 32 \<le> s then Inl ShiftRange
            else case Reduction_level without_vcl tnum s st of
                   Inl e \<Rightarrow> Inl e
                 | Inr st' \<Rightarrow> Reduction_levels without_vcl tnum (s + 1) st')
      else Inr st)"
  by pat_completeness auto
termination
  by (relation "measure (\<lambda>(without_vcl, tnum, s, st). 32 - s)") auto

declare Reduction_levels.simps [simp del]

definition Reduction :: "bool \<Rightarrow> nat \<Rightarrow> shared \<Rightarrow> fault + shared" where
  "Reduction without_vcl tnum st = Reduction_levels without_vcl tnum 1 st"

text \<open>
  The levels the loop runs through, and the calls of \<^verbatim>\<open>ReductionStep\<close> made
  at a level: the pairs \<open>(tid, tid2)\<close>.
\<close>

function level_numbers :: "nat \<Rightarrow> nat \<Rightarrow> nat list" where
  "level_numbers tnum s =
     (if 2 ^ (s - 1) < tnum \<and> s < 32 then s # level_numbers tnum (s + 1) else [])"
  by pat_completeness auto
termination
  by (relation "measure (\<lambda>(tnum, s). 32 - s)") auto

declare level_numbers.simps [simp del]

definition merges_at_level :: "nat \<Rightarrow> nat \<Rightarrow> (nat \<times> nat) list" where
  "merges_at_level tnum s =
     map (\<lambda>tid. (tid, tid OR 2 ^ (s - 1)))
       (filter (\<lambda>tid. tid mod 2 ^ s = 0 \<and> tid OR 2 ^ (s - 1) < tnum) [0..<tnum])"

definition merge_schedule :: "nat \<Rightarrow> (nat \<times> nat \<times> nat) list" where
  "merge_schedule tnum =
     concat (map (\<lambda>s. map (\<lambda>(tid, tid2). (s, tid, tid2)) (merges_at_level tnum s))
       (level_numbers tnum 1))"

text \<open>The calls of a level, made one after the other.\<close>

fun run_calls :: "bool \<Rightarrow> nat \<Rightarrow> (nat \<times> nat) list \<Rightarrow> shared \<Rightarrow> fault + shared" where
  "run_calls without_vcl s [] st = Inr st"
| "run_calls without_vcl s ((tid, tid2) # cs) st =
     (case call_ReductionStep without_vcl s tid tid2 st of
        Inl e \<Rightarrow> Inl e
      | Inr st' \<Rightarrow> run_calls without_vcl s cs st')"

text \<open>The levels of a list, run one after the other.\<close>

fun run_levels :: "bool \<Rightarrow> nat \<Rightarrow> nat list \<Rightarrow> shared \<Rightarrow> fault + shared" where
  "run_levels without_vcl tnum [] st = Inr st"
| "run_levels without_vcl tnum (s # ss) st =
     (case Reduction_level without_vcl tnum s st of
        Inl e \<Rightarrow> Inl e
      | Inr st' \<Rightarrow> run_levels without_vcl tnum ss st')"

text \<open>
  The logical value of the superaccumulator of a thread, and the shape of
  \<^verbatim>\<open>acc\<close> that \<^verbatim>\<open>ExDOTFPE\<close> sets up: \<^verbatim>\<open>BIN_COUNT\<close> bins for each of the
  \<open>tnum\<close> threads.
\<close>

definition acc_value :: "shared \<Rightarrow> nat \<Rightarrow> int" where
  "acc_value st tid = logical_value (acc st ! tid)"

definition acc_shape :: "nat \<Rightarrow> shared \<Rightarrow> bool" where
  "acc_shape tnum st \<longleftrightarrow>
     tnum \<le> length (acc st) \<and> list_all (\<lambda>a. length a = BIN_COUNT) (take tnum (acc st))"

text \<open>
  The copy loop at the end of \<^verbatim>\<open>ExDOTFPE\<close>:
  \<^verbatim>\<open>for(int i = IMIN; i <= IMAX; i++) h_superacc[i] = acc[i];\<close>. The first
  \<^verbatim>\<open>BIN_COUNT\<close> entries of \<^verbatim>\<open>acc\<close> are the bins of thread 0.
\<close>

definition copy_out :: "shared \<Rightarrow> superacc" where
  "copy_out st = map (\<lambda>i. acc st ! 0 ! i) [IMIN..<Suc IMAX]"

section \<open>The ranges of the threads\<close>

text \<open>
  The integer conversions of the range computations. \<^verbatim>\<open>tid\<close> and \<^verbatim>\<open>tnum\<close> are
  \<^verbatim>\<open>unsigned int\<close>, \<^verbatim>\<open>N\<close> is \<^verbatim>\<open>int\<close>; the product and the quotient are computed
  in \<^verbatim>\<open>int64_t\<close>, the mask \<^verbatim>\<open>~7ul\<close> turns its operand into a 64-bit unsigned
  number, and the result is stored in an \<^verbatim>\<open>int\<close>. C++ division truncates
  towards zero.
\<close>

definition to_uint32 :: "int \<Rightarrow> int" where
  "to_uint32 v = v mod 2 ^ 32"

definition to_uint64 :: "int \<Rightarrow> int" where
  "to_uint64 v = v mod 2 ^ 64"

definition to_int32 :: "int \<Rightarrow> int" where
  "to_int32 v = (v + 2 ^ 31) mod 2 ^ 32 - 2 ^ 31"

definition cpp_div :: "int \<Rightarrow> int \<Rightarrow> int" where
  "cpp_div a b = sgn a * sgn b * (\<bar>a\<bar> div \<bar>b\<bar>)"

definition and_not7ul :: "int \<Rightarrow> int" where
  "and_not7ul v = to_uint64 v - to_uint64 v mod 8"

text \<open>
  With the vector class library:
  \<^verbatim>\<open>int l = ((tid * int64_t(N)) / tnum) & ~7ul;\<close> and
  \<^verbatim>\<open>int r = ((((tid+1) * int64_t(N)) / tnum) & ~7ul) - 1;\<close>
\<close>

definition vcl_l :: "nat \<Rightarrow> nat \<Rightarrow> int \<Rightarrow> int" where
  "vcl_l tid tnum N = to_int32 (and_not7ul (cpp_div (int tid * N) (int tnum)))"

definition vcl_r :: "nat \<Rightarrow> nat \<Rightarrow> int \<Rightarrow> int" where
  "vcl_r tid tnum N =
     to_int32 (to_uint64 (and_not7ul (cpp_div (to_uint32 (int tid + 1) * N) (int tnum)) - 1))"

text \<open>
  Without it: \<^verbatim>\<open>int l = ((tid * int64_t(N)) / tnum);\<close> and
  \<^verbatim>\<open>int r = ((((tid+1) * int64_t(N)) / tnum) ) - 1;\<close>
\<close>

definition scalar_l :: "nat \<Rightarrow> nat \<Rightarrow> int \<Rightarrow> int" where
  "scalar_l tid tnum N = to_int32 (cpp_div (int tid * N) (int tnum))"

definition scalar_r :: "nat \<Rightarrow> nat \<Rightarrow> int \<Rightarrow> int" where
  "scalar_r tid tnum N = to_int32 (cpp_div (to_uint32 (int tid + 1) * N) (int tnum) - 1)"

text \<open>The values of \<open>i\<close> in \<^verbatim>\<open>for(int i = l; i < r; i+=8)\<close>.\<close>

function loop_step8 :: "int \<Rightarrow> int \<Rightarrow> int list" where
  "loop_step8 i r = (if i < r then i # loop_step8 (i + 8) r else [])"
  by pat_completeness auto
termination
  by (relation "measure (\<lambda>(i, r). nat (r - i))") auto

declare loop_step8.simps [simp del]

text \<open>
  The batches of a thread: the starts of the full batches of its main loop,
  and the start and the number of elements of the partial batch that the last
  thread takes under \<^verbatim>\<open>if( tid+1==tnum && r != N-1)\<close>, after \<^verbatim>\<open>r+=1\<close>.
\<close>

definition vcl_batches :: "nat \<Rightarrow> nat \<Rightarrow> int \<Rightarrow> int list" where
  "vcl_batches tid tnum N = loop_step8 (vcl_l tid tnum N) (vcl_r tid tnum N)"

definition vcl_tail :: "nat \<Rightarrow> nat \<Rightarrow> int \<Rightarrow> (int \<times> int) option" where
  "vcl_tail tid tnum N =
     (if to_uint32 (int tid + 1) = int tnum \<and> vcl_r tid tnum N \<noteq> N - 1
      then Some (vcl_r tid tnum N + 1, N - (vcl_r tid tnum N + 1))
      else None)"

text \<open>
  The indices of the input elements a thread loads: eight for each full
  batch, and those below the count for the partial batch. The scalar build
  takes \<^verbatim>\<open>for(int i = l; i <= r; i++)\<close>.
\<close>

definition vcl_indices :: "nat \<Rightarrow> nat \<Rightarrow> int \<Rightarrow> int list" where
  "vcl_indices tid tnum N =
     concat (map (\<lambda>i. map (\<lambda>k. i + int k) [0..<8]) (vcl_batches tid tnum N)) @
     (case vcl_tail tid tnum N of
        None \<Rightarrow> []
      | Some (r, n) \<Rightarrow> map (\<lambda>k. r + int k) (filter (\<lambda>k. int k < n) [0..<8]))"

definition scalar_indices :: "nat \<Rightarrow> nat \<Rightarrow> int \<Rightarrow> int list" where
  "scalar_indices tid tnum N = [scalar_l tid tnum N..scalar_r tid tnum N]"

text \<open>
  The quotient \<open>t * N / T\<close> and the quotient rounded down to a multiple of eight,
  in unbounded integers.
\<close>

definition quot :: "nat \<Rightarrow> nat \<Rightarrow> int \<Rightarrow> int" where
  "quot t T N = int t * N div int T"

definition quot8 :: "nat \<Rightarrow> nat \<Rightarrow> int \<Rightarrow> int" where
  "quot8 t T N = 8 * (quot t T N div 8)"

section \<open>The lane kernels\<close>

text \<open>
  An input \<^verbatim>\<open>PointerOrValue\<close> is modelled by the function from the index to
  the element (constant for a value). The element type \<open>'v\<close> stands for
  \<^verbatim>\<open>double\<close>; a \<^verbatim>\<open>vcl::Vec8d\<close> is the list of its eight lanes.

  Modelled from the spec: \<^verbatim>\<open>make_vcl_vec8d\<close> and \<^verbatim>\<open>get_element\<close> of
  \<^verbatim>\<open>accumulate.h\<close> (sections 4.3 and 9: the full load of eight elements from
  index \<open>i\<close>, and the partial load of \<open>n\<close> elements that fills the lanes beyond
  with zero).
\<close>

definition make_vcl_vec8d :: "(int \<Rightarrow> 'v) \<Rightarrow> int \<Rightarrow> 'v list" where
  "make_vcl_vec8d a i = map (\<lambda>k. a (i + int k)) [0..<8]"

definition make_vcl_vec8d_partial :: "(int \<Rightarrow> 'v::zero) \<Rightarrow> int \<Rightarrow> int \<Rightarrow> 'v list" where
  "make_vcl_vec8d_partial a i n = map (\<lambda>k. if int k < n then a (i + int k) else 0) [0..<8]"

definition get_element :: "(int \<Rightarrow> 'v) \<Rightarrow> int \<Rightarrow> 'v" where
  "get_element a i = a i"

text \<open>
  The floating-point operations are parameters of the model: \<open>tp\<close> is the
  scalar \<^verbatim>\<open>TwoProductFMA\<close>, giving the product and its error term, \<open>mul_add\<close> the
  fused multiply-add of the vector class library, \<open>fmul\<close> the multiplication of
  two doubles. On vectors they work lane by lane; the constant \<^verbatim>\<open>0\<close> of
  \<^verbatim>\<open>mul_add(x, y, 0)\<close> is the vector of eight zeros.
\<close>

definition TwoProductFMA_x :: "('v \<Rightarrow> 'v \<Rightarrow> 'v \<times> 'v) \<Rightarrow> 'v list \<Rightarrow> 'v list \<Rightarrow> 'v list" where
  "TwoProductFMA_x tp xs ys = map2 (\<lambda>x y. fst (tp x y)) xs ys"

definition TwoProductFMA_r1 :: "('v \<Rightarrow> 'v \<Rightarrow> 'v \<times> 'v) \<Rightarrow> 'v list \<Rightarrow> 'v list \<Rightarrow> 'v list" where
  "TwoProductFMA_r1 tp xs ys = map2 (\<lambda>x y. snd (tp x y)) xs ys"

definition mul_add0 :: "('v \<Rightarrow> 'v \<Rightarrow> 'v \<Rightarrow> 'v) \<Rightarrow> 'v list \<Rightarrow> 'v list \<Rightarrow> 'v::zero list" where
  "mul_add0 mul_add xs ys = map2 (\<lambda>x y. mul_add x y 0) xs ys"

text \<open>
  The cache is the template parameter \<^verbatim>\<open>CACHE\<close> of \<^verbatim>\<open>ExDOTFPE\<close>: the
  constructor binds it to a superaccumulator, \<^verbatim>\<open>Accumulate\<close> takes a vector (or
  a double in the scalar build), \<^verbatim>\<open>Flush\<close> leaves the superaccumulator it is
  bound to in its final state. The state \<open>'c\<close> of a cache stands for its slots
  together with the superaccumulator it writes to.
\<close>

record ('x, 'c) cache =
  cache_new :: "superacc \<Rightarrow> 'c"
  Accumulate :: "'c \<Rightarrow> 'x \<Rightarrow> 'c"
  Flush :: "'c \<Rightarrow> superacc"

text \<open>
  The arguments of the calls of \<^verbatim>\<open>cache.Accumulate\<close> made by a thread, in
  order. Two-operand kernel with vectors: \<^verbatim>\<open>x\<close> and \<^verbatim>\<open>r1\<close> for each full batch,
  then for the partial batch.
\<close>

definition vcl_fed2 ::
  "('v \<Rightarrow> 'v \<Rightarrow> 'v \<times> 'v) \<Rightarrow> nat \<Rightarrow> nat \<Rightarrow> int \<Rightarrow> (int \<Rightarrow> 'v) \<Rightarrow> (int \<Rightarrow> 'v::zero) \<Rightarrow> 'v list list" where
  "vcl_fed2 tp tid tnum N a b =
     concat (map (\<lambda>i. [TwoProductFMA_x tp (make_vcl_vec8d a i) (make_vcl_vec8d b i),
                        TwoProductFMA_r1 tp (make_vcl_vec8d a i) (make_vcl_vec8d b i)])
       (vcl_batches tid tnum N)) @
     (case vcl_tail tid tnum N of
        None \<Rightarrow> []
      | Some (r, n) \<Rightarrow>
          [TwoProductFMA_x tp (make_vcl_vec8d_partial a r n) (make_vcl_vec8d_partial b r n),
           TwoProductFMA_r1 tp (make_vcl_vec8d_partial a r n) (make_vcl_vec8d_partial b r n)])"

text \<open>Two-operand kernel of the scalar build: \<^verbatim>\<open>x\<close> and \<^verbatim>\<open>r1\<close> for each element.\<close>

definition scalar_fed2 ::
  "('v \<Rightarrow> 'v \<Rightarrow> 'v \<times> 'v) \<Rightarrow> nat \<Rightarrow> nat \<Rightarrow> int \<Rightarrow> (int \<Rightarrow> 'v) \<Rightarrow> (int \<Rightarrow> 'v) \<Rightarrow> 'v list" where
  "scalar_fed2 tp tid tnum N a b =
     concat (map (\<lambda>i. [fst (tp (get_element a i) (get_element b i)),
                        snd (tp (get_element a i) (get_element b i))])
       (scalar_indices tid tnum N))"

text \<open>
  Three-operand kernel with vectors: \<^verbatim>\<open>x1 = mul_add(a, b, 0)\<close>,
  \<^verbatim>\<open>x2 = mul_add(x1, c, 0)\<close>, and \<^verbatim>\<open>x2\<close> alone is accumulated.
\<close>

definition vcl_fed3 ::
  "('v \<Rightarrow> 'v \<Rightarrow> 'v \<Rightarrow> 'v) \<Rightarrow> nat \<Rightarrow> nat \<Rightarrow> int \<Rightarrow>
   (int \<Rightarrow> 'v) \<Rightarrow> (int \<Rightarrow> 'v) \<Rightarrow> (int \<Rightarrow> 'v::zero) \<Rightarrow> 'v list list" where
  "vcl_fed3 mul_add tid tnum N a b c =
     map (\<lambda>i. mul_add0 mul_add
            (mul_add0 mul_add (make_vcl_vec8d a i) (make_vcl_vec8d b i)) (make_vcl_vec8d c i))
       (vcl_batches tid tnum N) @
     (case vcl_tail tid tnum N of
        None \<Rightarrow> []
      | Some (r, n) \<Rightarrow>
          [mul_add0 mul_add
             (mul_add0 mul_add (make_vcl_vec8d_partial a r n) (make_vcl_vec8d_partial b r n))
             (make_vcl_vec8d_partial c r n)])"

text \<open>
  Three-operand kernel of the scalar build: \<^verbatim>\<open>x1 = a[i]*b[i]\<close>,
  \<^verbatim>\<open>x2 = x1*c[i]\<close>.
\<close>

definition scalar_fed3 ::
  "('v \<Rightarrow> 'v \<Rightarrow> 'v) \<Rightarrow> nat \<Rightarrow> nat \<Rightarrow> int \<Rightarrow> (int \<Rightarrow> 'v) \<Rightarrow> (int \<Rightarrow> 'v) \<Rightarrow> (int \<Rightarrow> 'v) \<Rightarrow> 'v list" where
  "scalar_fed3 fmul tid tnum N a b c =
     map (\<lambda>i. fmul (fmul (get_element a i) (get_element b i)) (get_element c i))
       (scalar_indices tid tnum N)"

section \<open>ExDOTFPE\<close>

text \<open>
  The part of a thread before the reduction: the cache is bound to the
  thread's superaccumulator, takes the thread's values, is flushed, and the
  superaccumulator is normalized. The thread also sets its counter to 0.
\<close>

definition local_sum :: "('x, 'c) cache \<Rightarrow> (nat \<Rightarrow> 'x list) \<Rightarrow> nat \<Rightarrow> shared \<Rightarrow> fault + shared" where
  "local_sum C fed tid st =
     (case Normalize (Flush C (foldl (Accumulate C) (cache_new C (acc st ! tid)) (fed tid)))
             IMIN IMAX of
        Inl e \<Rightarrow> Inl e
      | Inr n \<Rightarrow> Inr (st\<lparr>acc := (acc st)[tid := n], ready := (ready st)[tid := 0]\<rparr>))"

text \<open>
  The whole function for a team of \<open>tnum\<close> threads: \<^verbatim>\<open>acc\<close> starts as zeros,
  each thread sums its range (the threads write to different
  superaccumulators), the tree reduction follows, and \<^verbatim>\<open>acc[0]\<close> is copied
  out.
\<close>

definition ExDOTFPE_run ::
  "bool \<Rightarrow> ('x, 'c) cache \<Rightarrow> (nat \<Rightarrow> 'x list) \<Rightarrow> nat \<Rightarrow> fault + superacc" where
  "ExDOTFPE_run without_vcl C fed tnum =
     (case run_threads (local_sum C fed) [0..<tnum]
             \<lparr>acc = replicate tnum (replicate BIN_COUNT 0), ready = replicate tnum 0\<rparr> of
        Inl e \<Rightarrow> Inl e
      | Inr st1 \<Rightarrow>
          (case Reduction without_vcl tnum st1 of
             Inl e \<Rightarrow> Inl e
           | Inr st2 \<Rightarrow> Inr (copy_out st2)))"

text \<open>The four instances: two and three operands, with and without vectors.\<close>

definition ExDOTFPE_vcl ::
  "('v list, 'c) cache \<Rightarrow> ('v \<Rightarrow> 'v \<Rightarrow> 'v \<times> 'v) \<Rightarrow> nat \<Rightarrow> int \<Rightarrow>
   (int \<Rightarrow> 'v) \<Rightarrow> (int \<Rightarrow> 'v::zero) \<Rightarrow> fault + superacc" where
  "ExDOTFPE_vcl C tp tnum N a b =
     ExDOTFPE_run False C (\<lambda>tid. vcl_fed2 tp tid tnum N a b) tnum"

definition ExDOTFPE_scalar ::
  "('v, 'c) cache \<Rightarrow> ('v \<Rightarrow> 'v \<Rightarrow> 'v \<times> 'v) \<Rightarrow> nat \<Rightarrow> int \<Rightarrow>
   (int \<Rightarrow> 'v) \<Rightarrow> (int \<Rightarrow> 'v) \<Rightarrow> fault + superacc" where
  "ExDOTFPE_scalar C tp tnum N a b =
     ExDOTFPE_run True C (\<lambda>tid. scalar_fed2 tp tid tnum N a b) tnum"

definition ExDOTFPE3_vcl ::
  "('v list, 'c) cache \<Rightarrow> ('v \<Rightarrow> 'v \<Rightarrow> 'v \<Rightarrow> 'v) \<Rightarrow> nat \<Rightarrow> int \<Rightarrow>
   (int \<Rightarrow> 'v) \<Rightarrow> (int \<Rightarrow> 'v) \<Rightarrow> (int \<Rightarrow> 'v::zero) \<Rightarrow> fault + superacc" where
  "ExDOTFPE3_vcl C mul_add tnum N a b c =
     ExDOTFPE_run False C (\<lambda>tid. vcl_fed3 mul_add tid tnum N a b c) tnum"

definition ExDOTFPE3_scalar ::
  "('v, 'c) cache \<Rightarrow> ('v \<Rightarrow> 'v \<Rightarrow> 'v) \<Rightarrow> nat \<Rightarrow> int \<Rightarrow>
   (int \<Rightarrow> 'v) \<Rightarrow> (int \<Rightarrow> 'v) \<Rightarrow> (int \<Rightarrow> 'v) \<Rightarrow> fault + superacc" where
  "ExDOTFPE3_scalar C fmul tnum N a b c =
     ExDOTFPE_run True C (\<lambda>tid. scalar_fed3 fmul tid tnum N a b c) tnum"

text \<open>
  \<^verbatim>\<open>exdot_omp(size, x1_ptr, x2_ptr, h_superacc)\<close> passes \<^verbatim>\<open>(int)size\<close> on
  (\<open>sz\<close> is the unsigned \<^verbatim>\<open>size\<close>).
\<close>

definition exdot_omp ::
  "('v list, 'c) cache \<Rightarrow> ('v \<Rightarrow> 'v \<Rightarrow> 'v \<times> 'v) \<Rightarrow> nat \<Rightarrow> nat \<Rightarrow>
   (int \<Rightarrow> 'v) \<Rightarrow> (int \<Rightarrow> 'v::zero) \<Rightarrow> fault + superacc" where
  "exdot_omp C tp tnum sz a b = ExDOTFPE_vcl C tp tnum (to_int32 (int sz)) a b"

definition exdot_omp_without_vcl ::
  "('v, 'c) cache \<Rightarrow> ('v \<Rightarrow> 'v \<Rightarrow> 'v \<times> 'v) \<Rightarrow> nat \<Rightarrow> nat \<Rightarrow>
   (int \<Rightarrow> 'v) \<Rightarrow> (int \<Rightarrow> 'v) \<Rightarrow> fault + superacc" where
  "exdot_omp_without_vcl C tp tnum sz a b = ExDOTFPE_scalar C tp tnum (to_int32 (int sz)) a b"

text \<open>
  The three-operand \<^verbatim>\<open>exdot_omp(size, x1_ptr, x2_ptr, x3_ptr, h_superacc)\<close>, with
  vectors and without, also passes \<^verbatim>\<open>(int)size\<close> on.
\<close>

definition exdot_omp3 ::
  "('v list, 'c) cache \<Rightarrow> ('v \<Rightarrow> 'v \<Rightarrow> 'v \<Rightarrow> 'v) \<Rightarrow> nat \<Rightarrow> nat \<Rightarrow>
   (int \<Rightarrow> 'v) \<Rightarrow> (int \<Rightarrow> 'v) \<Rightarrow> (int \<Rightarrow> 'v::zero) \<Rightarrow> fault + superacc" where
  "exdot_omp3 C mul_add tnum sz a b c = ExDOTFPE3_vcl C mul_add tnum (to_int32 (int sz)) a b c"

definition exdot_omp3_without_vcl ::
  "('v, 'c) cache \<Rightarrow> ('v \<Rightarrow> 'v \<Rightarrow> 'v) \<Rightarrow> nat \<Rightarrow> nat \<Rightarrow>
   (int \<Rightarrow> 'v) \<Rightarrow> (int \<Rightarrow> 'v) \<Rightarrow> (int \<Rightarrow> 'v) \<Rightarrow> fault + superacc" where
  "exdot_omp3_without_vcl C fmul tnum sz a b c =
     ExDOTFPE3_scalar C fmul tnum (to_int32 (int sz)) a b c"


section \<open>What is assumed of the cache and of the floating-point operations\<close>

text \<open>
  The superaccumulator a thread holds after the flush, when its cache has
  taken the values \<open>xs\<close> from a superaccumulator of zeros.
\<close>

definition local_acc :: "('x, 'c) cache \<Rightarrow> 'x list \<Rightarrow> superacc" where
  "local_acc C xs = Flush C (foldl (Accumulate C) (cache_new C (replicate BIN_COUNT 0)) xs)"

text \<open>
  Modelled from the spec: what the cache \<^verbatim>\<open>FPExpansionVect\<close> of
  \<^verbatim>\<open>ExSUM.FPE.hpp\<close>, which is not among the sources, does for the values it
  takes (sections 3 and 4.2: the cache and the superaccumulator together hold
  the sum of the accumulated values without error, and the flush moves all of
  it into the superaccumulator). \<open>val\<close> gives the real number a value stands
  for, \<open>ulp\<close> the weight of the least significant bit of bin 0. The property
  is asked of the lists of values the threads of one run accumulate, not of all
  lists: a superaccumulator is finite.
\<close>

definition cache_exact :: "('x, 'c) cache \<Rightarrow> ('x \<Rightarrow> real) \<Rightarrow> real \<Rightarrow> 'x list \<Rightarrow> bool" where
  "cache_exact C val ulp xs \<longleftrightarrow>
     length (local_acc C xs) = BIN_COUNT \<and>
     of_int (logical_value (local_acc C xs)) * ulp = sum_list (map val xs)"

text \<open>The real number a vector stands for when it is accumulated: the sum of its lanes.\<close>

definition lane_sum :: "('v \<Rightarrow> real) \<Rightarrow> 'v list \<Rightarrow> real" where
  "lane_sum R x = sum_list (map R x)"

text \<open>
  An instance for evaluation. Doubles that are whole multiples of the unit of
  bin 0 are modelled by integers, for which \<^verbatim>\<open>TwoProductFMA\<close> gives the product
  and the error term 0 and the rounded products are the products. The cache
  without slots hands every value to the superaccumulator at once, adding it
  to bin 0; it is exact as long as bin 0 does not overflow.
\<close>

definition int_TwoProductFMA :: "int \<Rightarrow> int \<Rightarrow> int \<times> int" where
  "int_TwoProductFMA x y = (x * y, 0)"

definition int_mul_add :: "int \<Rightarrow> int \<Rightarrow> int \<Rightarrow> int" where
  "int_mul_add x y z = x * y + z"

definition direct_cache :: "(int, superacc) cache" where
  "direct_cache =
     \<lparr>cache_new = (\<lambda>a. a),
      Accumulate = (\<lambda>a x. a[0 := a ! 0 + word_of_int x]),
      Flush = (\<lambda>a. a)\<rparr>"

definition direct_cache8 :: "(int list, superacc) cache" where
  "direct_cache8 =
     \<lparr>cache_new = (\<lambda>a. a),
      Accumulate = (\<lambda>a x. a[0 := a ! 0 + word_of_int (sum_list x)]),
      Flush = (\<lambda>a. a)\<rparr>"

text \<open>
  An instance for evaluation with operations that round: on the integers, a
  product is rounded down to a multiple of 4.
\<close>

definition trunc4_mul :: "int \<Rightarrow> int \<Rightarrow> int" where
  "trunc4_mul x y = 4 * (x * y div 4)"

definition trunc4_mul_add :: "int \<Rightarrow> int \<Rightarrow> int \<Rightarrow> int" where
  "trunc4_mul_add x y z = 4 * ((x * y + z) div 4)"

text \<open>The shared arrays with zeros in every superaccumulator and \<open>k\<close> in every counter.\<close>

definition zero_state :: "nat \<Rightarrow> nat \<Rightarrow> shared" where
  "zero_state T k = \<lparr>acc = replicate T (replicate BIN_COUNT 0), ready = replicate T k\<rparr>"

section \<open>Properties of the superaccumulator operations\<close>

lemma sint_add_ok: "add_ok x y \<Longrightarrow> sint (x + y) = sint x + sint y"
  unfolding add_ok_def
  by (simp add: sint_word_ariths signed_take_bit_int_eq_self)

lemma sint_take_bit_low:
  fixes v :: "64 word"
  assumes "d < 64"
  shows "sint (take_bit d v) = sint v mod 2 ^ d"
proof -
  have u: "uint (take_bit d v) = take_bit d (uint v)"
    by (simp add: unsigned_take_bit_eq)
  have lt: "take_bit d (uint v) < 2 ^ 63"
  proof -
    have "take_bit d (uint v) < 2 ^ d" by simp
    also have "(2::int) ^ d \<le> 2 ^ 63" using assms by (intro power_increasing) auto
    finally show ?thesis .
  qed
  have "sint (take_bit d v) = signed_take_bit 63 (take_bit d (uint v))"
    by (simp add: sint_uint u)
  also have "\<dots> = take_bit d (uint v)"
    using lt by (intro signed_take_bit_int_eq_self) (auto intro: order_trans [of _ 0])
  also have "\<dots> = take_bit d (sint v)"
    using assms by (simp add: sint_uint take_bit_signed_take_bit)
  finally show ?thesis by (simp add: take_bit_eq_mod)
qed

lemma split_digit:
  fixes v :: "64 word"
  assumes "d < 64"
  shows "sint (take_bit d v) + 2 ^ d * sint (signed_drop_bit d v) = sint v"
  by (simp add: sint_take_bit_low [OF assms] sint_signed_drop_bit_eq drop_bit_eq_div)

lemma carry_sweep_value:
  "carry_sweep c bs = Inr r \<Longrightarrow> bs \<noteq> [] \<Longrightarrow>
     logical_value r = sint c + logical_value bs \<and> length r = length bs"
proof (induction c bs arbitrary: r rule: carry_sweep.induct)
  case (1 c)
  then show ?case by simp
next
  case (2 c b)
  then show ?case by (auto split: if_splits simp: sint_add_ok)
next
  case (3 c b b' bs)
  from "3.prems" have ok: "add_ok b c" by (auto split: if_splits)
  from "3.prems" ok obtain r' where
    r': "carry_sweep (signed_drop_bit DIGITS (b + c)) (b' # bs) = Inr r'"
    and r: "r = take_bit DIGITS (b + c) # r'"
    by (auto split: sum.splits)
  from "3.IH" [OF ok r'] have
    ih: "logical_value r' = sint (signed_drop_bit DIGITS (b + c)) + logical_value (b' # bs)"
    and len: "length r' = length (b' # bs)"
    by auto
  have d: "DIGITS < 64" by (simp add: DIGITS_def)
  have "logical_value r =
      sint (take_bit DIGITS (b + c)) + 2 ^ DIGITS * sint (signed_drop_bit DIGITS (b + c))
      + 2 ^ DIGITS * logical_value (b' # bs)"
    by (simp add: r ih algebra_simps)
  also have "\<dots> = sint (b + c) + 2 ^ DIGITS * logical_value (b' # bs)"
    by (simp only: split_digit [OF d])
  finally show ?case
    using len by (simp add: r sint_add_ok [OF ok])
qed

lemma carry_sweep_normalized:
  "carry_sweep c bs = Inr r \<Longrightarrow> normalized r"
proof (induction c bs arbitrary: r rule: carry_sweep.induct)
  case (1 c)
  then show ?case by (simp add: normalized_def)
next
  case (2 c b)
  then show ?case by (auto split: if_splits simp: normalized_def)
next
  case (3 c b b' bs)
  from "3.prems" have ok: "add_ok b c" by (auto split: if_splits)
  from "3.prems" ok obtain r' where
    r': "carry_sweep (signed_drop_bit DIGITS (b + c)) (b' # bs) = Inr r'"
    and r: "r = take_bit DIGITS (b + c) # r'"
    by (auto split: sum.splits)
  have ne: "r' \<noteq> []"
    using carry_sweep_value [OF r'] by auto
  have d: "DIGITS < 64" by (simp add: DIGITS_def)
  have "0 \<le> sint (take_bit DIGITS (b + c)) \<and> sint (take_bit DIGITS (b + c)) < 2 ^ DIGITS"
    by (simp add: sint_take_bit_low [OF d])
  with "3.IH" [OF ok r'] ne show ?case
    by (simp add: normalized_def r)
qed

lemma Normalize_whole:
  "length a = BIN_COUNT \<Longrightarrow> Normalize a IMIN IMAX = carry_sweep 0 a"
  by (cases "carry_sweep 0 a") (simp_all add: Normalize_def IMIN_def IMAX_def BIN_COUNT_def)

lemma Normalize_value:
  assumes "Normalize a IMIN IMAX = Inr n" and "length a = BIN_COUNT"
  shows "logical_value n = logical_value a" and "length n = BIN_COUNT" and "normalized n"
proof -
  from assms have s: "carry_sweep 0 a = Inr n" by (simp add: Normalize_whole)
  from assms(2) have "a \<noteq> []" by (auto simp: BIN_COUNT_def)
  from carry_sweep_value [OF s this] assms(2)
  show "logical_value n = logical_value a" and "length n = BIN_COUNT" by simp_all
  from carry_sweep_normalized [OF s] show "normalized n" .
qed

lemma MergeFrom_loop_nth:
  "imax < length acc1 \<Longrightarrow> k < length acc1 \<Longrightarrow>
     length (MergeFrom_loop i imax acc1 acc2) = length acc1 \<and>
     MergeFrom_loop i imax acc1 acc2 ! k =
       (if i \<le> k \<and> k \<le> imax then acc1 ! k + acc2 ! k else acc1 ! k)"
proof (induction i imax acc1 acc2 rule: MergeFrom_loop.induct)
  case (1 i imax acc1 acc2)
  show ?case
  proof (cases "i \<le> imax")
    case True
    with 1 show ?thesis
      by (subst (1 2) MergeFrom_loop.simps) (auto simp: nth_list_update)
  next
    case False
    then show ?thesis
      by (subst (1 2) MergeFrom_loop.simps) auto
  qed
qed

lemma MergeFrom_map2:
  assumes "length a = BIN_COUNT" and "length b = BIN_COUNT"
  shows "MergeFrom a b = map2 (+) a b"
proof (rule nth_equalityI)
  have i: "IMAX < length a" using assms by (simp add: IMAX_def BIN_COUNT_def)
  show len: "length (MergeFrom a b) = length (map2 (+) a b)"
    using MergeFrom_loop_nth [OF i, of 0 IMIN b] assms
    by (simp add: MergeFrom_def BIN_COUNT_def)
  fix k assume "k < length (MergeFrom a b)"
  with len assms have k: "k < length a" "k < length b" "k \<le> IMAX"
    by (simp_all add: IMAX_def BIN_COUNT_def)
  with MergeFrom_loop_nth [OF i k(1), of IMIN b]
  show "MergeFrom a b ! k = map2 (+) a b ! k"
    by (simp add: MergeFrom_def IMIN_def)
qed

lemma logical_value_map2:
  "list_all2 add_ok a b \<Longrightarrow>
     logical_value (map2 (+) a b) = logical_value a + logical_value b"
  by (induction a b rule: list_all2_induct) (simp_all add: sint_add_ok algebra_simps)

lemma MergeFrom_ok_all2:
  assumes "MergeFrom_ok a b" and "length a = BIN_COUNT" and "length b = BIN_COUNT"
  shows "list_all2 add_ok a b"
  using assms
  by (auto simp: MergeFrom_ok_def list_all2_conv_all_nth list_all_iff IMIN_def IMAX_def BIN_COUNT_def)

lemma MergeFrom_value:
  assumes "MergeFrom_ok a b" and "length a = BIN_COUNT" and "length b = BIN_COUNT"
  shows "logical_value (MergeFrom a b) = logical_value a + logical_value b"
  by (simp add: MergeFrom_map2 assms logical_value_map2 MergeFrom_ok_all2)

lemma normalized_Cons:
  "xs \<noteq> [] \<Longrightarrow> normalized (x # xs) \<longleftrightarrow> (0 \<le> sint x \<and> sint x < 2 ^ DIGITS) \<and> normalized xs"
  by (simp add: normalized_def)

lemma normalized_unique:
  "length a = length b \<Longrightarrow> normalized a \<Longrightarrow> normalized b \<Longrightarrow>
     logical_value a = logical_value b \<Longrightarrow> a = b"
proof (induction a b rule: list_induct2)
  case Nil
  then show ?case by simp
next
  case (Cons x xs y ys)
  show ?case
  proof (cases "xs = []")
    case True
    with Cons show ?thesis by (auto intro: signed_word_eqI)
  next
    case False
    with Cons.hyps have ys: "ys \<noteq> []" by auto
    from Cons.prems False ys have
      x: "0 \<le> sint x" "sint x < 2 ^ DIGITS" and y: "0 \<le> sint y" "sint y < 2 ^ DIGITS"
      and n: "normalized xs" "normalized ys"
      by (simp_all add: normalized_Cons)
    from Cons.prems(3) have
      e: "sint x + 2 ^ DIGITS * logical_value xs = sint y + 2 ^ DIGITS * logical_value ys"
      by simp
    then have "(sint x + 2 ^ DIGITS * logical_value xs) mod 2 ^ DIGITS
             = (sint y + 2 ^ DIGITS * logical_value ys) mod 2 ^ DIGITS"
      by simp
    with x y have s: "sint x = sint y" by simp
    with e have "logical_value xs = logical_value ys" by simp
    with Cons.IH n s show ?thesis by (auto intro: signed_word_eqI)
  qed
qed

lemma carry_bound:
  fixes v :: "64 word"
  assumes "- (2 ^ 61) \<le> sint v" "sint v \<le> 2 ^ 61"
  shows "- (2 ^ 60) \<le> sint (signed_drop_bit DIGITS v) \<and> sint (signed_drop_bit DIGITS v) \<le> 2 ^ 60"
proof -
  have "sint (signed_drop_bit DIGITS v) = sint v div 2 ^ 52"
    by (simp add: sint_signed_drop_bit_eq drop_bit_eq_div DIGITS_def)
  moreover have "(- (2 ^ 61)) div 2 ^ 52 \<le> sint v div (2 ^ 52 :: int)"
    using assms(1) by (intro zdiv_mono1) simp_all
  moreover have "sint v div (2 ^ 52 :: int) \<le> 2 ^ 61 div 2 ^ 52"
    using assms(2) by (intro zdiv_mono1) simp_all
  ultimately show ?thesis by simp
qed

lemma carry_sweep_defined:
  "list_all (\<lambda>b. - (2 ^ 60) \<le> sint b \<and> sint b \<le> 2 ^ 60) bs \<Longrightarrow>
   - (2 ^ 60) \<le> sint c \<Longrightarrow> sint c \<le> 2 ^ 60 \<Longrightarrow>
   \<exists>r. carry_sweep c bs = Inr r \<and>
       (bs \<noteq> [] \<longrightarrow> - (2 ^ 61) \<le> sint (last r) \<and> sint (last r) \<le> 2 ^ 61)"
proof (induction c bs rule: carry_sweep.induct)
  case (1 c)
  then show ?case by simp
next
  case (2 c b)
  then have "add_ok b c" by (simp add: add_ok_def)
  with 2 show ?case by (simp add: sint_add_ok)
next
  case (3 c b b' bs)
  then have ok: "add_ok b c" by (simp add: add_ok_def)
  with 3 have "- (2 ^ 61) \<le> sint (b + c)" "sint (b + c) \<le> 2 ^ 61"
    by (simp_all add: sint_add_ok)
  from carry_bound [OF this] "3.IH" [OF ok] "3.prems"(1)
  obtain r where r: "carry_sweep (signed_drop_bit DIGITS (b + c)) (b' # bs) = Inr r"
    and l: "- (2 ^ 61) \<le> sint (last r) \<and> sint (last r) \<le> 2 ^ 61"
    by auto
  from carry_sweep_value [OF r] have "r \<noteq> []" by auto
  with ok r l show ?case by simp
qed

lemma ReductionStep_defined:
  assumes "length a1 = BIN_COUNT" "length a2 = BIN_COUNT"
    and "small_bins a1" "small_bins a2" and "without_vcl \<or> step \<le> rdy"
  shows "\<exists>r. ReductionStep without_vcl step a1 a2 rdy = Inr r"
proof -
  have ne: "a1 \<noteq> []" "a2 \<noteq> []" using assms by (auto simp: BIN_COUNT_def)
  from carry_sweep_defined [of a1 0] assms(3) ne obtain n1 where
    n1: "carry_sweep 0 a1 = Inr n1" and l1: "- (2 ^ 61) \<le> sint (last n1)" "sint (last n1) \<le> 2 ^ 61"
    by (auto simp: small_bins_def)
  from carry_sweep_defined [of a2 0] assms(4) ne obtain n2 where
    n2: "carry_sweep 0 a2 = Inr n2" and l2: "- (2 ^ 61) \<le> sint (last n2)" "sint (last n2) \<le> 2 ^ 61"
    by (auto simp: small_bins_def)
  have N1: "Normalize a1 IMIN IMAX = Inr n1" and N2: "Normalize a2 IMIN IMAX = Inr n2"
    using n1 n2 assms by (simp_all add: Normalize_whole)
  note v1 = Normalize_value [OF N1 assms(1)] and v2 = Normalize_value [OF N2 assms(2)]
  have "add_ok (n1 ! i) (n2 ! i)" if "i < BIN_COUNT" for i
  proof (cases "i = IMAX")
    case True
    moreover have "n1 \<noteq> []" "n2 \<noteq> []"
      using v1(2) v2(2) by (auto simp: BIN_COUNT_def)
    ultimately have "n1 ! i = last n1" "n2 ! i = last n2"
      using v1(2) v2(2) by (simp_all add: last_conv_nth IMAX_def BIN_COUNT_def)
    with l1 l2 show ?thesis by (simp add: add_ok_def)
  next
    case False
    with that have i: "i < length (butlast n1)" "i < length (butlast n2)"
      using v1(2) v2(2) by (simp_all add: IMAX_def BIN_COUNT_def)
    from v1(3) v2(3) i have
      "0 \<le> sint (butlast n1 ! i) \<and> sint (butlast n1 ! i) < 2 ^ DIGITS"
      "0 \<le> sint (butlast n2 ! i) \<and> sint (butlast n2 ! i) < 2 ^ DIGITS"
      by (simp_all add: normalized_def list_all_length)
    with i have "0 \<le> sint (n1 ! i)" "sint (n1 ! i) < 2 ^ 52" "0 \<le> sint (n2 ! i)" "sint (n2 ! i) < 2 ^ 52"
      by (simp_all add: nth_butlast DIGITS_def)
    then show ?thesis by (simp add: add_ok_def)
  qed
  then have "MergeFrom_ok n1 n2"
    using v1(2) v2(2) by (simp add: MergeFrom_ok_def list_all_iff IMIN_def IMAX_def BIN_COUNT_def)
  with N1 N2 assms(5) show ?thesis
    by (auto simp: ReductionStep_def)
qed

lemma ReductionStep_Inr:
  assumes "ReductionStep without_vcl step a1 a2 rdy = Inr (r1, r2)"
  shows "\<exists>n1. Normalize a1 IMIN IMAX = Inr n1 \<and> Normalize a2 IMIN IMAX = Inr r2 \<and>
     MergeFrom_ok n1 r2 \<and> r1 = MergeFrom n1 r2 \<and> (without_vcl \<or> step \<le> rdy)"
  using assms
  by (auto simp: ReductionStep_def split: if_splits sum.splits)

lemma ReductionStep_value:
  assumes "ReductionStep without_vcl step a1 a2 rdy = Inr (r1, r2)"
    and "length a1 = BIN_COUNT" "length a2 = BIN_COUNT"
  shows "logical_value r1 = logical_value a1 + logical_value a2"
    and "logical_value r2 = logical_value a2"
    and "length r1 = BIN_COUNT" and "length r2 = BIN_COUNT"
proof -
  from ReductionStep_Inr [OF assms(1)] obtain n1 where
    N1: "Normalize a1 IMIN IMAX = Inr n1" and N2: "Normalize a2 IMIN IMAX = Inr r2"
    and ok: "MergeFrom_ok n1 r2" and r1: "r1 = MergeFrom n1 r2"
    by blast
  note v1 = Normalize_value [OF N1 assms(2)] and v2 = Normalize_value [OF N2 assms(3)]
  show "logical_value r2 = logical_value a2" "length r2 = BIN_COUNT"
    using v2 by simp_all
  show "logical_value r1 = logical_value a1 + logical_value a2"
    using MergeFrom_value [OF ok v1(2) v2(2)] v1(1) v2(1) r1 by simp
  show "length r1 = BIN_COUNT"
    using v1(2) v2(2) by (simp add: r1 MergeFrom_map2)
qed

lemma call_ReductionStep_Inr:
  assumes "call_ReductionStep without_vcl s tid tid2 st = Inr st'"
  shows "\<exists>a1 a2. ReductionStep without_vcl s (acc st ! tid) (acc st ! tid2) (ready st ! tid2) = Inr (a1, a2)
           \<and> st' = st\<lparr>acc := (acc st)[tid := a1, tid2 := a2]\<rparr>"
  using assms by (auto simp: call_ReductionStep_def split: sum.splits)

section \<open>The merge is commutative and associative\<close>

text \<open>
  Claim C8. The bin-wise merge of two superaccumulators (\<^verbatim>\<open>acc1[i] += acc2[i]\<close>
  for \<open>i\<close> from \<^verbatim>\<open>IMIN\<close> to \<^verbatim>\<open>IMAX\<close>) is commutative and associative: merging
  in either argument order, or with either grouping, gives the same bins, hence
  results of equal logical value whose normalized forms are identical.
\<close>

theorem MergeFrom_comm_assoc:
  assumes "length A = BIN_COUNT" and "length B = BIN_COUNT" and "length C = BIN_COUNT"
  shows "MergeFrom A B = MergeFrom B A \<and>
         MergeFrom (MergeFrom A B) C = MergeFrom A (MergeFrom B C) \<and>
         logical_value (MergeFrom A B) = logical_value (MergeFrom B A) \<and>
         logical_value (MergeFrom (MergeFrom A B) C) = logical_value (MergeFrom A (MergeFrom B C)) \<and>
         Normalize (MergeFrom A B) IMIN IMAX = Normalize (MergeFrom B A) IMIN IMAX \<and>
         Normalize (MergeFrom (MergeFrom A B) C) IMIN IMAX =
           Normalize (MergeFrom A (MergeFrom B C)) IMIN IMAX"
proof -
  have c: "MergeFrom A B = MergeFrom B A"
    using assms
    by (auto simp: MergeFrom_map2 intro!: nth_equalityI simp: add.commute)
  have lab: "length (MergeFrom A B) = BIN_COUNT" and lbc: "length (MergeFrom B C) = BIN_COUNT"
    using assms by (simp_all add: MergeFrom_map2)
  have a: "MergeFrom (MergeFrom A B) C = MergeFrom A (MergeFrom B C)"
    unfolding MergeFrom_map2 [OF lab assms(3)] MergeFrom_map2 [OF assms(1) lbc]
    unfolding MergeFrom_map2 [OF assms(1,2)] MergeFrom_map2 [OF assms(2,3)]
    using assms by (auto intro!: nth_equalityI simp: add.assoc)
  from c have c': "logical_value (MergeFrom A B) = logical_value (MergeFrom B A)"
    "Normalize (MergeFrom A B) IMIN IMAX = Normalize (MergeFrom B A) IMIN IMAX"
    by simp_all
  from a have a': "logical_value (MergeFrom (MergeFrom A B) C) = logical_value (MergeFrom A (MergeFrom B C))"
    "Normalize (MergeFrom (MergeFrom A B) C) IMIN IMAX = Normalize (MergeFrom A (MergeFrom B C)) IMIN IMAX"
    by simp_all
  from c a c' a' show ?thesis by blast
qed

theorem MergeFrom_comm_assoc_witness:
  "length ((3 * 2 ^ 51) # 7 # replicate 37 (0 :: 64 word)) = BIN_COUNT \<and>
   length ((2 ^ 51) # replicate 38 (0 :: 64 word)) = BIN_COUNT \<and>
   length (replicate 39 (- 1 :: 64 word)) = BIN_COUNT \<and>
   MergeFrom ((3 * 2 ^ 51) # 7 # replicate 37 0) ((2 ^ 51) # replicate 38 0) =
     MergeFrom ((2 ^ 51) # replicate 38 0) ((3 * 2 ^ 51) # 7 # replicate 37 0) \<and>
   MergeFrom (MergeFrom ((3 * 2 ^ 51) # 7 # replicate 37 0) ((2 ^ 51) # replicate 38 0))
       (replicate 39 (- 1)) =
     MergeFrom ((3 * 2 ^ 51) # 7 # replicate 37 0)
       (MergeFrom ((2 ^ 51) # replicate 38 0) (replicate 39 (- 1))) \<and>
   Normalize (MergeFrom ((3 * 2 ^ 51) # 7 # replicate 37 0) ((2 ^ 51) # replicate 38 0))
       IMIN IMAX =
     Normalize (MergeFrom ((2 ^ 51) # replicate 38 0) ((3 * 2 ^ 51) # 7 # replicate 37 0))
       IMIN IMAX"
proof -
  have l: "length ((3 * 2 ^ 51) # 7 # replicate 37 (0 :: 64 word)) = BIN_COUNT"
    "length ((2 ^ 51) # replicate 38 (0 :: 64 word)) = BIN_COUNT"
    "length (replicate 39 (- 1 :: 64 word)) = BIN_COUNT"
    by (simp_all add: BIN_COUNT_def)
  from MergeFrom_comm_assoc [OF l] l show ?thesis
    by blast
qed

section \<open>What a reduction step does\<close>

text \<open>
  Claim C6. \<^verbatim>\<open>ReductionStep(step, acc1, acc2, ready)\<close> normalizes both
  superaccumulators and then adds \<^verbatim>\<open>acc2\<close> into \<^verbatim>\<open>acc1\<close> bin by bin from
  \<^verbatim>\<open>IMIN\<close> to \<^verbatim>\<open>IMAX\<close>. When no addition overflows, the logical value of
  \<^verbatim>\<open>acc1\<close> becomes the sum of the two logical values, \<^verbatim>\<open>acc2\<close> becomes its
  normalized form and keeps its logical value, and nothing else changes: the
  counters and the other superaccumulators are as before. Bins within
  \<open>2 ^ 60\<close> in absolute value never overflow.
\<close>

theorem ReductionStep_sums_and_frames:
  assumes "tid \<noteq> tid2" and "tid < length (acc st)" and "tid2 < length (acc st)"
    and "length (acc st ! tid) = BIN_COUNT" and "length (acc st ! tid2) = BIN_COUNT"
  shows "(\<forall>st'. call_ReductionStep without_vcl s tid tid2 st = Inr st' \<longrightarrow>
            (\<exists>n1 n2. Normalize (acc st ! tid) IMIN IMAX = Inr n1 \<and>
                     Normalize (acc st ! tid2) IMIN IMAX = Inr n2 \<and>
                     acc st' ! tid2 = n2 \<and>
                     length (acc st' ! tid) = BIN_COUNT \<and>
                     (\<forall>i. IMIN \<le> i \<and> i \<le> IMAX \<longrightarrow> acc st' ! tid ! i = n1 ! i + n2 ! i)) \<and>
            logical_value (acc st' ! tid) =
              logical_value (acc st ! tid) + logical_value (acc st ! tid2) \<and>
            logical_value (acc st' ! tid2) = logical_value (acc st ! tid2) \<and>
            ready st' = ready st \<and>
            length (acc st') = length (acc st) \<and>
            (\<forall>u. u \<noteq> tid \<and> u \<noteq> tid2 \<longrightarrow> acc st' ! u = acc st ! u)) \<and>
         (small_bins (acc st ! tid) \<and> small_bins (acc st ! tid2) \<and>
            (without_vcl \<or> s \<le> ready st ! tid2) \<longrightarrow>
            (\<exists>st'. call_ReductionStep without_vcl s tid tid2 st = Inr st'))"
proof (intro conjI allI impI)
  fix st'
  assume c: "call_ReductionStep without_vcl s tid tid2 st = Inr st'"
  from call_ReductionStep_Inr [OF c] obtain a1 a2 where
    r: "ReductionStep without_vcl s (acc st ! tid) (acc st ! tid2) (ready st ! tid2) = Inr (a1, a2)"
    and st': "st' = st\<lparr>acc := (acc st)[tid := a1, tid2 := a2]\<rparr>"
    by blast
  have n1: "acc st' ! tid = a1" and n2: "acc st' ! tid2 = a2"
    using assms(1-3) by (simp_all add: st')
  from ReductionStep_Inr [OF r] obtain m1 where
    N1: "Normalize (acc st ! tid) IMIN IMAX = Inr m1"
    and N2: "Normalize (acc st ! tid2) IMIN IMAX = Inr a2"
    and a1: "a1 = MergeFrom m1 a2"
    by blast
  note v1 = Normalize_value [OF N1 assms(4)] and v2 = Normalize_value [OF N2 assms(5)]
  have bins: "\<forall>i. IMIN \<le> i \<and> i \<le> IMAX \<longrightarrow> a1 ! i = m1 ! i + a2 ! i"
    using v1(2) v2(2) by (simp add: a1 MergeFrom_map2 IMAX_def BIN_COUNT_def)
  note v = ReductionStep_value [OF r assms(4,5)]
  show "\<exists>n1 n2. Normalize (acc st ! tid) IMIN IMAX = Inr n1 \<and>
                     Normalize (acc st ! tid2) IMIN IMAX = Inr n2 \<and>
                     acc st' ! tid2 = n2 \<and>
                     length (acc st' ! tid) = BIN_COUNT \<and>
                     (\<forall>i. IMIN \<le> i \<and> i \<le> IMAX \<longrightarrow> acc st' ! tid ! i = n1 ! i + n2 ! i)"
    using N1 N2 bins v(3) by (simp add: n1 n2)
  show "logical_value (acc st' ! tid) =
              logical_value (acc st ! tid) + logical_value (acc st ! tid2)"
    using v(1) by (simp add: n1)
  show "logical_value (acc st' ! tid2) = logical_value (acc st ! tid2)"
    using v(2) by (simp add: n2)
  show "ready st' = ready st" "length (acc st') = length (acc st)"
    by (simp_all add: st')
  fix u assume "u \<noteq> tid \<and> u \<noteq> tid2"
  then show "acc st' ! u = acc st ! u"
    by (simp add: st')
next
  assume "small_bins (acc st ! tid) \<and> small_bins (acc st ! tid2) \<and>
            (without_vcl \<or> s \<le> ready st ! tid2)"
  with ReductionStep_defined [OF assms(4,5), of without_vcl s "ready st ! tid2"]
  show "\<exists>st'. call_ReductionStep without_vcl s tid tid2 st = Inr st'"
    by (auto simp: call_ReductionStep_def)
qed

theorem ReductionStep_sums_and_frames_witness:
  "call_ReductionStep False 1 0 1
     \<lparr>acc = [(3 * 2 ^ 51) # 7 # replicate 37 0, (2 ^ 51) # replicate 38 0], ready = [1, 1]\<rparr> =
     Inr \<lparr>acc = [(2 ^ 52) # 8 # replicate 37 0, (2 ^ 51) # replicate 38 0], ready = [1, 1]\<rparr> \<and>
   logical_value ((2 ^ 52) # 8 # replicate 37 0) =
     logical_value ((3 * 2 ^ 51) # 7 # replicate 37 0) + logical_value ((2 ^ 51) # replicate 38 0)"
proof -
  let ?st = "\<lparr>acc = [(3 * 2 ^ 51) # 7 # replicate 37 0, (2 ^ 51) # replicate 38 0],
    ready = [1, 1]\<rparr>"
  let ?st' = "\<lparr>acc = [(2 ^ 52) # 8 # replicate 37 0, (2 ^ 51) # replicate 38 0],
    ready = [1, 1]\<rparr>"
  have e: "call_ReductionStep False 1 0 1 ?st = Inr ?st'"
    by code_simp
  have h: "(0::nat) \<noteq> 1" "0 < length (acc ?st)" "1 < length (acc ?st)"
    "length (acc ?st ! 0) = BIN_COUNT" "length (acc ?st ! 1) = BIN_COUNT"
    by (simp_all add: BIN_COUNT_def)
  from ReductionStep_sums_and_frames [OF h, of False 1] e
  have "logical_value (acc ?st' ! 0) = logical_value (acc ?st ! 0) + logical_value (acc ?st ! 1)"
    by blast
  with e show ?thesis
    by simp
qed

section \<open>The shape of the reduction tree\<close>

lemma or_low_bit:
  fixes p :: nat
  assumes "p mod 2 ^ s = 0" and "0 < s"
  shows "p OR 2 ^ (s - 1) = p + 2 ^ (s - 1)"
proof -
  have "\<not> bit p (s - 1)"
  proof
    assume b: "bit p (s - 1)"
    from assms(1) have "take_bit s p = 0" by (simp add: take_bit_eq_mod)
    then have "\<not> bit (take_bit s p) (s - 1)" by simp
    with b assms(2) show False by (simp add: bit_take_bit_iff)
  qed
  then have "p + 2 ^ (s - 1) = p OR 2 ^ (s - 1)"
    by (intro disjunctive_add) (auto simp: bit_exp_iff)
  then show ?thesis by simp
qed

lemma level_numbers_set:
  "0 < s \<Longrightarrow> set (level_numbers tnum s) = {s'. s \<le> s' \<and> s' < 32 \<and> 2 ^ (s' - 1) < tnum}"
proof (induction tnum s rule: level_numbers.induct)
  case (1 tnum s)
  show ?case
  proof (cases "2 ^ (s - 1) < tnum \<and> s < 32")
    case True
    then have "set (level_numbers tnum s) = insert s (set (level_numbers tnum (s + 1)))"
      by (subst level_numbers.simps) simp
    also have "\<dots> = insert s {s'. s + 1 \<le> s' \<and> s' < 32 \<and> 2 ^ (s' - 1) < tnum}"
      using "1.IH" [OF True] by simp
    also have "\<dots> = {s'. s \<le> s' \<and> s' < 32 \<and> 2 ^ (s' - 1) < tnum}"
      using True by (auto simp: le_Suc_eq)
    finally show ?thesis .
  next
    case False
    have "\<not> (s' < 32 \<and> 2 ^ (s' - 1) < tnum)" if "s \<le> s'" for s'
    proof
      assume a: "s' < 32 \<and> 2 ^ (s' - 1) < tnum"
      with that False have "tnum \<le> 2 ^ (s - 1)" by auto
      also have "(2::nat) ^ (s - 1) \<le> 2 ^ (s' - 1)"
        using that by (intro power_increasing) auto
      finally show False using a by simp
    qed
    with False show ?thesis
      by (subst level_numbers.simps) auto
  qed
qed

lemma level_numbers_distinct:
  "distinct (level_numbers tnum s) \<and> (\<forall>s' \<in> set (level_numbers tnum s). s \<le> s')"
proof (induction tnum s rule: level_numbers.induct)
  case (1 tnum s)
  show ?case
  proof (cases "2 ^ (s - 1) < tnum \<and> s < 32")
    case True
    from True have e: "level_numbers tnum s = s # level_numbers tnum (s + 1)"
      by (subst level_numbers.simps) simp
    from "1.IH" [OF True] show ?thesis
      unfolding e by fastforce
  next
    case False
    then have "level_numbers tnum s = []"
      by (subst level_numbers.simps) simp
    then show ?thesis by simp
  qed
qed

lemma merges_at_level_set:
  "(p, t) \<in> set (merges_at_level tnum s) \<longleftrightarrow>
     p < tnum \<and> p mod 2 ^ s = 0 \<and> t = p OR 2 ^ (s - 1) \<and> t < tnum"
  by (auto simp: merges_at_level_def)

lemma merges_at_level_distinct: "distinct (merges_at_level tnum s)"
  by (auto simp: merges_at_level_def distinct_map inj_on_def)


lemma low_bit_unique:
  fixes p q :: nat
  assumes "p + 2 ^ (s - 1) = q + 2 ^ (s' - 1)" and "p mod 2 ^ s = 0" and "q mod 2 ^ s' = 0"
    and "0 < s" and "0 < s'"
  shows "s = s' \<and> p = q"
proof -
  have char: "2 ^ (k - 1) dvd a + 2 ^ (k - 1) \<and> \<not> 2 ^ k dvd a + 2 ^ (k - 1)"
    if "a mod 2 ^ k = 0" "0 < k" for a k :: nat
  proof -
    from that have d: "2 ^ k dvd a" by (simp add: mod_eq_0_iff_dvd)
    have "(2::nat) ^ (k - 1) dvd 2 ^ k" by (intro le_imp_power_dvd) simp
    with d have "2 ^ (k - 1) dvd a" by (rule dvd_trans [rotated])
    moreover have "\<not> (2::nat) ^ k dvd 2 ^ (k - 1)"
      using that(2) power_dvd_imp_le [of 2 k "k - 1"] by auto
    ultimately show ?thesis using d by (simp add: dvd_add_right_iff)
  qed
  let ?t = "p + 2 ^ (s - 1)"
  from char [OF assms(2,4)] have c1: "2 ^ (s - 1) dvd ?t" "\<not> 2 ^ s dvd ?t" by simp_all
  from char [OF assms(3,5)] assms(1) have c2: "2 ^ (s' - 1) dvd ?t" "\<not> 2 ^ s' dvd ?t" by simp_all
  have "s = s'"
  proof (rule ccontr)
    assume "s \<noteq> s'"
    then consider "s < s'" | "s' < s" by linarith
    then show False
    proof cases
      case 1
      then have "(2::nat) ^ s dvd 2 ^ (s' - 1)" by (intro le_imp_power_dvd) simp
      from this c2(1) have "2 ^ s dvd ?t" by (rule dvd_trans)
      with c1(2) show False ..
    next
      case 2
      then have "(2::nat) ^ s' dvd 2 ^ (s - 1)" by (intro le_imp_power_dvd) simp
      from this c1(1) have "2 ^ s' dvd ?t" by (rule dvd_trans)
      with c2(2) show False ..
    qed
  qed
  with assms(1) show ?thesis by simp
qed

lemma low_bit_exists:
  fixes t :: nat
  assumes "0 < t"
  shows "\<exists>s. 0 < s \<and> 2 ^ (s - 1) dvd t \<and> \<not> 2 ^ s dvd t"
proof -
  define k where "k = (LEAST k. \<not> 2 ^ Suc k dvd t)"
  have ex: "\<not> 2 ^ Suc t dvd t"
  proof
    assume "2 ^ Suc t dvd t"
    with assms have "2 ^ Suc t \<le> t" by (intro dvd_imp_le) simp_all
    moreover have "t < 2 ^ Suc t" by (rule less_trans [OF _ less_exp [of "Suc t"]]) simp
    ultimately show False by simp
  qed
  then have n: "\<not> 2 ^ Suc k dvd t" unfolding k_def by (rule LeastI)
  have "2 ^ k dvd t"
  proof (cases k)
    case 0
    then show ?thesis by simp
  next
    case (Suc j)
    then have "j < k" by simp
    then have "\<not> \<not> 2 ^ Suc j dvd t" unfolding k_def by (rule not_less_Least)
    with Suc show ?thesis by simp
  qed
  with n show ?thesis by (intro exI [of _ "Suc k"]) simp
qed

lemma distinct_singleton:
  assumes d: "distinct xs" and s: "set xs = {a}"
  shows "xs = [a]"
proof (cases xs)
  case Nil
  with s show ?thesis by simp
next
  case (Cons x ys)
  from s Cons have x: "x = a" by auto
  have "ys = []"
  proof (cases ys)
    case (Cons y zs)
    with \<open>xs = x # ys\<close> s have "y = a" by auto
    with d x Cons \<open>xs = x # ys\<close> show ?thesis by simp
  qed simp
  with x Cons show ?thesis by simp
qed

lemma concat_pick:
  "distinct ls \<Longrightarrow> s \<in> set ls \<Longrightarrow> concat (map (\<lambda>x. if x = s then [a] else []) ls) = [a]"
  by (induction ls) auto

lemma filter_level_child:
  assumes "0 < s'"
  shows "filter (\<lambda>(s'', p', c). c = t)
           (map (\<lambda>(tid, tid2). (s', tid, tid2)) (merges_at_level T s')) =
         map (\<lambda>q. (s', q, t))
           (filter (\<lambda>q. q mod 2 ^ s' = 0 \<and> q + 2 ^ (s' - 1) < T \<and> q + 2 ^ (s' - 1) = t) [0..<T])"
proof -
  have "filter (\<lambda>(s'', p', c). c = t)
           (map (\<lambda>(tid, tid2). (s', tid, tid2)) (merges_at_level T s')) =
        map (\<lambda>q. (s', q, q OR 2 ^ (s' - 1)))
          (filter (\<lambda>q. (q mod 2 ^ s' = 0 \<and> q OR 2 ^ (s' - 1) < T) \<and> q OR 2 ^ (s' - 1) = t) [0..<T])"
    by (simp add: merges_at_level_def filter_map comp_def case_prod_beta)
  also have "\<dots> = map (\<lambda>q. (s', q, t))
          (filter (\<lambda>q. (q mod 2 ^ s' = 0 \<and> q OR 2 ^ (s' - 1) < T) \<and> q OR 2 ^ (s' - 1) = t) [0..<T])"
    by (rule map_cong) auto
  also have "filter (\<lambda>q. (q mod 2 ^ s' = 0 \<and> q OR 2 ^ (s' - 1) < T) \<and> q OR 2 ^ (s' - 1) = t) [0..<T]
     = filter (\<lambda>q. q mod 2 ^ s' = 0 \<and> q + 2 ^ (s' - 1) < T \<and> q + 2 ^ (s' - 1) = t) [0..<T]"
  proof (rule filter_cong [OF refl])
    fix q
    show "((q mod 2 ^ s' = 0 \<and> q OR 2 ^ (s' - 1) < T) \<and> q OR 2 ^ (s' - 1) = t) =
          (q mod 2 ^ s' = 0 \<and> q + 2 ^ (s' - 1) < T \<and> q + 2 ^ (s' - 1) = t)"
    proof (cases "q mod 2 ^ s' = 0")
      case True
      from or_low_bit [OF True assms] show ?thesis by auto
    next
      case False
      then show ?thesis by blast
    qed
  qed
  finally show ?thesis .
qed

section \<open>The value left in the first superaccumulator\<close>

lemma acc_fold_publish: "acc (fold publish ts st) = acc st"
  by (induction ts arbitrary: st) (simp_all add: publish_def)

lemma run_threads_merge_step:
  "run_threads (merge_step without_vcl tnum s) ts st =
   run_calls without_vcl s
     (map (\<lambda>tid. (tid, tid OR 2 ^ (s - 1)))
        (filter (\<lambda>tid. tid mod 2 ^ s = 0 \<and> tid OR 2 ^ (s - 1) < tnum) ts)) st"
proof (induction ts arbitrary: st)
  case Nil
  then show ?case by simp
next
  case (Cons t ts)
  show ?case
  proof (cases "t mod 2 ^ s = 0 \<and> t OR 2 ^ (s - 1) < tnum")
    case True
    then have m: "merge_step without_vcl tnum s t st =
        call_ReductionStep without_vcl s t (t OR 2 ^ (s - 1)) st"
      by (simp add: merge_step_def)
    from True show ?thesis
      by (cases "call_ReductionStep without_vcl s t (t OR 2 ^ (s - 1)) st")
        (simp_all add: m Cons.IH)
  next
    case False
    then have m: "merge_step without_vcl tnum s t st = Inr st"
      by (auto simp: merge_step_def Let_def)
    from False show ?thesis
      by (auto simp: m Cons.IH)
  qed
qed

lemma Reduction_level_calls:
  "Reduction_level without_vcl tnum s st =
   run_calls without_vcl s (merges_at_level tnum s) (fold publish [0..<tnum] st)"
  by (simp add: Reduction_level_def run_threads_merge_step merges_at_level_def)

lemma acc_shape_nth: "acc_shape T st \<Longrightarrow> u < T \<Longrightarrow> length (acc st ! u) = BIN_COUNT"
  by (auto simp: acc_shape_def list_all_length)

lemma acc_shapeI:
  "T \<le> length (acc st) \<Longrightarrow> (\<And>u. u < T \<Longrightarrow> length (acc st ! u) = BIN_COUNT) \<Longrightarrow> acc_shape T st"
  by (auto simp: acc_shape_def list_all_length)

lemma call_ReductionStep_effect:
  assumes c: "call_ReductionStep without_vcl s tid tid2 st = Inr st'"
    and ne: "tid \<noteq> tid2" and lt: "tid < T" "tid2 < T" and sh: "acc_shape T st"
  shows "acc_shape T st'"
    and "ready st' = ready st"
    and "length (acc st') = length (acc st)"
    and "acc_value st' tid = acc_value st tid + acc_value st tid2"
    and "u \<noteq> tid \<Longrightarrow> u < T \<Longrightarrow> acc_value st' u = acc_value st u"
proof -
  from call_ReductionStep_Inr [OF c] obtain a1 a2 where
    r: "ReductionStep without_vcl s (acc st ! tid) (acc st ! tid2) (ready st ! tid2) = Inr (a1, a2)"
    and st': "st' = st\<lparr>acc := (acc st)[tid := a1, tid2 := a2]\<rparr>"
    by blast
  from sh lt have len: "tid < length (acc st)" "tid2 < length (acc st)"
    by (simp_all add: acc_shape_def)
  note v = ReductionStep_value [OF r acc_shape_nth [OF sh lt(1)] acc_shape_nth [OF sh lt(2)]]
  show "ready st' = ready st" "length (acc st') = length (acc st)"
    by (simp_all add: st')
  show "acc_shape T st'"
  proof (rule acc_shapeI)
    show "T \<le> length (acc st')" using sh by (simp add: st' acc_shape_def)
    fix u assume "u < T"
    with sh v(3,4) len show "length (acc st' ! u) = BIN_COUNT"
      by (auto simp: st' nth_list_update acc_shape_nth)
  qed
  show "acc_value st' tid = acc_value st tid + acc_value st tid2"
    using v(1) ne len by (simp add: st' acc_value_def)
  show "acc_value st' u = acc_value st u" if "u \<noteq> tid" "u < T"
    using that v(2) len by (cases "u = tid2") (simp_all add: st' acc_value_def)
qed

lemma run_calls_values:
  assumes "run_calls without_vcl s cs st = Inr st'"
    and "\<forall>(p, c) \<in> set cs. c = p + h \<and> p mod (2 * h) = 0 \<and> c < T"
    and "0 < h" and "distinct (map fst cs)" and "acc_shape T st"
  shows "acc_shape T st' \<and> length (acc st') = length (acc st) \<and> ready st' = ready st \<and>
     (\<forall>u<T. acc_value st' u =
        (if u \<in> fst ` set cs then acc_value st u + acc_value st (u + h) else acc_value st u))"
  using assms
proof (induction cs arbitrary: st)
  case Nil
  then show ?case by simp
next
  case (Cons pc cs)
  obtain p c where pc: "pc = (p, c)" by (cases pc)
  from Cons.prems(2) pc have c: "c = p + h" and pm: "p mod (2 * h) = 0" and cT: "c < T"
    by simp_all
  with Cons.prems(3) have pT: "p < T" and ne: "p \<noteq> c" by simp_all
  from Cons.prems(1) pc obtain st1 where
    s1: "call_ReductionStep without_vcl s p c st = Inr st1"
    and rest: "run_calls without_vcl s cs st1 = Inr st'"
    by (auto split: sum.splits)
  note e = call_ReductionStep_effect [OF s1 ne pT cT Cons.prems(5)]
  from Cons.prems(2) have all: "\<forall>(p, c) \<in> set cs. c = p + h \<and> p mod (2 * h) = 0 \<and> c < T"
    by simp
  from Cons.prems(4) have d: "distinct (map fst cs)" and pn: "p \<notin> fst ` set cs"
    by (simp_all add: pc)
  from Cons.IH [OF rest all Cons.prems(3) d e(1)] have
    ih: "acc_shape T st'" "length (acc st') = length (acc st1)" "ready st' = ready st1"
      "\<forall>u<T. acc_value st' u =
        (if u \<in> fst ` set cs then acc_value st1 u + acc_value st1 (u + h) else acc_value st1 u)"
    by simp_all
  have "acc_value st' u =
        (if u \<in> fst ` set (pc # cs) then acc_value st u + acc_value st (u + h) else acc_value st u)"
    if u: "u < T" for u
  proof (cases "u \<in> fst ` set cs")
    case True
    then obtain c' where m: "(u, c') \<in> set cs" by auto
    with all have c': "c' = u + h" "u mod (2 * h) = 0" "u + h < T" by auto
    from True pn have up: "u \<noteq> p" by auto
    have "(u + h) mod (2 * h) = h"
      using c'(2) Cons.prems(3) by (simp add: mod_add_left_eq [symmetric, of u])
    with pm Cons.prems(3) have uhp: "u + h \<noteq> p" by auto
    from ih(4) u True have "acc_value st' u = acc_value st1 u + acc_value st1 (u + h)" by simp
    also have "\<dots> = acc_value st u + acc_value st (u + h)"
      using e(5) [OF up u] e(5) [OF uhp c'(3)] by simp
    finally show ?thesis using True by simp
  next
    case False
    with ih(4) u have a: "acc_value st' u = acc_value st1 u" by simp
    show ?thesis
    proof (cases "u = p")
      case True
      with a e(4) c False show ?thesis by (simp add: pc)
    next
      case False
      with a e(5) [OF False u] \<open>u \<notin> fst ` set cs\<close> show ?thesis by (simp add: pc)
    qed
  qed
  with ih e show ?case by simp
qed

lemma Reduction_level_values:
  assumes r: "Reduction_level without_vcl T s st = Inr st'" and s: "0 < s" and sh: "acc_shape T st"
  shows "acc_shape T st'"
    and "length (acc st') = length (acc st)"
    and "u < T \<Longrightarrow> acc_value st' u =
        (if u mod 2 ^ s = 0 \<and> u + 2 ^ (s - 1) < T
         then acc_value st u + acc_value st (u + 2 ^ (s - 1)) else acc_value st u)"
proof -
  let ?st = "fold publish [0..<T] st"
  let ?h = "2 ^ (s - 1) :: nat"
  have two: "2 * ?h = 2 ^ s" using s by (cases s) simp_all
  have sh': "acc_shape T ?st" using sh by (simp add: acc_shape_def acc_fold_publish)
  have v: "acc_value ?st u = acc_value st u" for u
    by (simp add: acc_value_def acc_fold_publish)
  from r have c: "run_calls without_vcl s (merges_at_level T s) ?st = Inr st'"
    by (simp add: Reduction_level_calls)
  have a: "\<forall>(p, c) \<in> set (merges_at_level T s). c = p + ?h \<and> p mod (2 * ?h) = 0 \<and> c < T"
    unfolding two using or_low_bit [OF _ s] by (auto simp: merges_at_level_set)
  have d: "distinct (map fst (merges_at_level T s))"
    by (simp add: merges_at_level_def comp_def)
  have f: "u \<in> fst ` set (merges_at_level T s) \<longleftrightarrow> u < T \<and> u mod 2 ^ s = 0 \<and> u + ?h < T" for u
  proof -
    have "u \<in> fst ` set (merges_at_level T s) \<longleftrightarrow> (\<exists>c. (u, c) \<in> set (merges_at_level T s))"
      by force
    also have "\<dots> \<longleftrightarrow> u < T \<and> u mod 2 ^ s = 0 \<and> u OR ?h < T"
      by (simp add: merges_at_level_set)
    also have "\<dots> \<longleftrightarrow> u < T \<and> u mod 2 ^ s = 0 \<and> u + ?h < T"
      using or_low_bit [OF _ s, of u] by auto
    finally show ?thesis .
  qed
  have h0: "0 < ?h" by simp
  note rc = run_calls_values [OF c a h0 d sh']
  from rc show "acc_shape T st'" by simp
  from rc show "length (acc st') = length (acc st)" by (simp add: acc_fold_publish)
  show "acc_value st' u =
        (if u mod 2 ^ s = 0 \<and> u + 2 ^ (s - 1) < T
         then acc_value st u + acc_value st (u + 2 ^ (s - 1)) else acc_value st u)" if "u < T"
    using rc that by (simp add: f v)
qed

lemma block_sum_step:
  fixes V0 :: "nat \<Rightarrow> int"
  assumes s: "0 < s" and u: "u mod 2 ^ s = 0"
  shows "(if u + 2 ^ (s - 1) < T
          then sum V0 {u..<min (u + 2 ^ (s - 1)) T} +
               sum V0 {u + 2 ^ (s - 1)..<min (u + 2 ^ (s - 1) + 2 ^ (s - 1)) T}
          else sum V0 {u..<min (u + 2 ^ (s - 1)) T}) = sum V0 {u..<min (u + 2 ^ s) T}"
proof -
  let ?h = "2 ^ (s - 1) :: nat"
  have two: "2 ^ s = ?h + ?h" using s by (cases s) simp_all
  show ?thesis
  proof (cases "u + ?h < T")
    case True
    then have "sum V0 {u..<min (u + ?h) T} + sum V0 {u + ?h..<min (u + ?h + ?h) T}
       = sum V0 {u..<u + ?h} + sum V0 {u + ?h..<min (u + ?h + ?h) T}"
      by (simp add: min_def)
    also have "\<dots> = sum V0 {u..<min (u + ?h + ?h) T}"
      using True by (intro sum.atLeastLessThan_concat) simp_all
    finally show ?thesis using True by (simp add: two add.assoc)
  next
    case False
    then have "min (u + ?h) T = T" "min (u + 2 ^ s) T = T" by (simp_all add: two)
    with False show ?thesis by simp
  qed
qed

lemma run_levels_sum:
  fixes V0 :: "nat \<Rightarrow> int"
  assumes "run_levels without_vcl T [s..<s + n] st = Inr st'" and "0 < s" and "acc_shape T st"
    and "\<forall>u<T. u mod 2 ^ (s - 1) = 0 \<longrightarrow> acc_value st u = sum V0 {u..<min (u + 2 ^ (s - 1)) T}"
  shows "acc_shape T st' \<and> length (acc st') = length (acc st) \<and>
    (\<forall>u<T. u mod 2 ^ (s + n - 1) = 0 \<longrightarrow>
        acc_value st' u = sum V0 {u..<min (u + 2 ^ (s + n - 1)) T})"
  using assms
proof (induction n arbitrary: s st)
  case 0
  then show ?case by simp
next
  case (Suc n)
  have l: "[s..<s + Suc n] = s # [Suc s..<Suc s + n]"
    by (simp add: upt_conv_Cons)
  from Suc.prems(1) obtain st1 where
    one: "Reduction_level without_vcl T s st = Inr st1"
    and rest: "run_levels without_vcl T [Suc s..<Suc s + n] st1 = Inr st'"
    unfolding l by (auto split: sum.splits)
  note lv = Reduction_level_values [OF one Suc.prems(2,3)]
  have two: "(2::nat) ^ s = 2 * 2 ^ (s - 1)" using Suc.prems(2) by (cases s) simp_all
  have inv: "\<forall>u<T. u mod 2 ^ (Suc s - 1) = 0 \<longrightarrow>
      acc_value st1 u = sum V0 {u..<min (u + 2 ^ (Suc s - 1)) T}"
  proof (intro allI impI)
    fix u assume u: "u < T" and m: "u mod 2 ^ (Suc s - 1) = 0"
    then have ms: "u mod 2 ^ s = 0" by simp
    then have "2 ^ s dvd u" by (simp add: mod_eq_0_iff_dvd)
    then have dv: "2 ^ (s - 1) dvd u" by (rule dvd_trans [rotated]) (simp add: two)
    then have m1: "u mod 2 ^ (s - 1) = 0" by (simp add: mod_eq_0_iff_dvd)
    have m2: "(u + 2 ^ (s - 1)) mod 2 ^ (s - 1) = 0" using dv by (simp add: mod_eq_0_iff_dvd)
    from Suc.prems(4) u m1 have a: "acc_value st u = sum V0 {u..<min (u + 2 ^ (s - 1)) T}"
      by simp
    have b: "acc_value st (u + 2 ^ (s - 1)) =
        sum V0 {u + 2 ^ (s - 1)..<min (u + 2 ^ (s - 1) + 2 ^ (s - 1)) T}"
      if "u + 2 ^ (s - 1) < T"
      using Suc.prems(4) that m2 by simp
    from lv(3) [OF u] ms have "acc_value st1 u =
      (if u + 2 ^ (s - 1) < T then acc_value st u + acc_value st (u + 2 ^ (s - 1))
       else acc_value st u)"
      by simp
    also have "\<dots> = (if u + 2 ^ (s - 1) < T
          then sum V0 {u..<min (u + 2 ^ (s - 1)) T} +
               sum V0 {u + 2 ^ (s - 1)..<min (u + 2 ^ (s - 1) + 2 ^ (s - 1)) T}
          else sum V0 {u..<min (u + 2 ^ (s - 1)) T})"
      using a b by simp
    also have "\<dots> = sum V0 {u..<min (u + 2 ^ s) T}"
      by (rule block_sum_step [OF Suc.prems(2) ms])
    finally show "acc_value st1 u = sum V0 {u..<min (u + 2 ^ (Suc s - 1)) T}" by simp
  qed
  from Suc.IH [OF rest _ lv(1) inv] lv(2) show ?case by simp
qed

lemma level_numbers_upt:
  "level_numbers T s = [s..<s + length (level_numbers T s)]"
proof (induction T s rule: level_numbers.induct)
  case (1 T s)
  show ?case
  proof (cases "2 ^ (s - 1) < T \<and> s < 32")
    case True
    then have e: "level_numbers T s = s # level_numbers T (s + 1)"
      by (subst level_numbers.simps) simp
    have "[s..<s + length (s # level_numbers T (s + 1))] =
        s # [s + 1..<s + 1 + length (level_numbers T (s + 1))]"
      by (simp add: upt_conv_Cons del: upt_Suc)
    with "1.IH" [OF True] show ?thesis
      unfolding e by (simp del: upt_Suc)
  next
    case False
    then have "level_numbers T s = []" by (subst level_numbers.simps) simp
    then show ?thesis by simp
  qed
qed

lemma level_count:
  assumes "T \<le> 2 ^ 31"
  defines "S \<equiv> length (level_numbers T 1)"
  shows "level_numbers T 1 = [1..<Suc S]" and "T \<le> 2 ^ S" and "1 < T \<Longrightarrow> 2 ^ (S - 1) < T"
    and "S \<le> 31"
proof -
  have u: "level_numbers T 1 = [1..<1 + S]"
    unfolding S_def by (rule level_numbers_upt)
  then show "level_numbers T 1 = [1..<Suc S]" by (simp del: upt_Suc)
  have m1: "x \<in> set (level_numbers T 1) \<longleftrightarrow> 1 \<le> x \<and> x < 32 \<and> 2 ^ (x - 1) < T" for x
    using level_numbers_set [of 1 T] by simp
  have m2: "x \<in> set (level_numbers T 1) \<longleftrightarrow> 1 \<le> x \<and> x < Suc S" for x
    unfolding u by (simp del: upt_Suc)
  from m1 [of "Suc S"] m2 [of "Suc S"] have n: "\<not> (Suc S < 32 \<and> 2 ^ S < T)" by simp
  show "T \<le> 2 ^ S"
  proof (cases "Suc S < 32")
    case True
    with n show ?thesis by simp
  next
    case False
    then have "(2::nat) ^ 31 \<le> 2 ^ S" by (intro power_increasing) simp_all
    with assms(1) show ?thesis by simp
  qed
  show "S \<le> 31"
  proof (rule ccontr)
    assume a: "\<not> S \<le> 31"
    with m1 [of S] m2 [of S] show False by simp
  qed
  show "2 ^ (S - 1) < T" if "1 < T"
  proof (cases "S = 0")
    case True
    with that show ?thesis by simp
  next
    case False
    with m1 [of S] m2 [of S] show ?thesis by simp
  qed
qed

lemma Reduction_levels_run:
  "T \<le> 2 ^ 31 \<Longrightarrow>
   Reduction_levels without_vcl T s st = run_levels without_vcl T (level_numbers T s) st"
proof (induction without_vcl T s st rule: Reduction_levels.induct)
  case (1 without_vcl T s st)
  show ?case
  proof (cases "2 ^ (s - 1) < T")
    case True
    have s32: "s < 32"
    proof (rule ccontr)
      assume "\<not> s < 32"
      then have "(2::nat) ^ 31 \<le> 2 ^ (s - 1)" by (intro power_increasing) simp_all
      with True "1.prems" show False by simp
    qed
    from True s32 have e: "level_numbers T s = s # level_numbers T (s + 1)"
      by (subst level_numbers.simps) simp
    show ?thesis
    proof (cases "Reduction_level without_vcl T s st")
      case (Inl f)
      with True s32 show ?thesis
        by (subst Reduction_levels.simps) (simp add: e)
    next
      case (Inr st1)
      with True s32 "1.IH" [OF True _ Inr "1.prems"] show ?thesis
        by (subst Reduction_levels.simps) (simp add: e)
    qed
  next
    case False
    then have "level_numbers T s = []" by (subst level_numbers.simps) simp
    with False show ?thesis
      by (subst Reduction_levels.simps) simp
  qed
qed

lemma Reduction_levels_bound:
  "Reduction_levels without_vcl T s st = Inr st' \<Longrightarrow> s \<le> 32 \<Longrightarrow> T \<le> 2 ^ 31"
proof (induction without_vcl T s st rule: Reduction_levels.induct)
  case (1 without_vcl T s st)
  show ?case
  proof (cases "2 ^ (s - 1) < T")
    case True
    with "1.prems"(1) have s32: "\<not> 32 \<le> s"
      by (subst (asm) Reduction_levels.simps) (auto split: if_splits)
    with True "1.prems"(1) obtain st1 where
      a: "Reduction_level without_vcl T s st = Inr st1"
      and b: "Reduction_levels without_vcl T (s + 1) st1 = Inr st'"
      by (subst (asm) Reduction_levels.simps) (auto split: sum.splits)
    from "1.IH" [OF True s32 a b] s32 show ?thesis by simp
  next
    case False
    then have "T \<le> 2 ^ (s - 1)" by simp
    also have "(2::nat) ^ (s - 1) \<le> 2 ^ 31" using "1.prems"(2) by (intro power_increasing) simp_all
    finally show ?thesis .
  qed
qed

lemma Reduction_sum:
  assumes r: "Reduction without_vcl T st = Inr st'" and T: "0 < T" and sh: "acc_shape T st"
  shows "acc_value st' 0 = (\<Sum>u<T. acc_value st u)" and "acc_shape T st'"
    and "length (acc st') = length (acc st)"
proof -
  from r have b: "T \<le> 2 ^ 31"
    unfolding Reduction_def by (rule Reduction_levels_bound) simp
  define S where "S = length (level_numbers T 1)"
  note lc = level_count [OF b, folded S_def]
  from r have "run_levels without_vcl T [1..<Suc S] st = Inr st'"
    unfolding Reduction_def Reduction_levels_run [OF b] lc(1) .
  then have rl: "run_levels without_vcl T [1..<1 + S] st = Inr st'"
    by (simp del: upt_Suc)
  have inv0: "\<forall>u<T. u mod 2 ^ (1 - 1) = 0 \<longrightarrow>
      acc_value st u = sum (acc_value st) {u..<min (u + 2 ^ (1 - 1)) T}"
    by simp
  from run_levels_sum [OF rl _ sh inv0]
  have a: "acc_shape T st'" "length (acc st') = length (acc st)"
    and v: "\<forall>u<T. u mod 2 ^ S = 0 \<longrightarrow> acc_value st' u = sum (acc_value st) {u..<min (u + 2 ^ S) T}"
    by simp_all
  from a show "acc_shape T st'" "length (acc st') = length (acc st)" .
  from v T have "acc_value st' 0 = sum (acc_value st) {0..<min (2 ^ S) T}" by simp
  also have "min (2 ^ S) T = T" using lc(2) by simp
  finally show "acc_value st' 0 = (\<Sum>u<T. acc_value st u)"
    by (simp add: atLeast0LessThan)
qed

lemma copy_out_eq: "length (acc st ! 0) = BIN_COUNT \<Longrightarrow> copy_out st = acc st ! 0"
proof -
  assume l: "length (acc st ! 0) = BIN_COUNT"
  have "map (\<lambda>i. acc st ! 0 ! i) [0..<length (acc st ! 0)] = acc st ! 0"
    by (rule map_nth)
  with l show ?thesis
    by (simp add: copy_out_def IMIN_def IMAX_def BIN_COUNT_def)
qed




section \<open>The ranges cover the input\<close>

lemma to_int32_id: "- (2 ^ 31) \<le> v \<Longrightarrow> v < 2 ^ 31 \<Longrightarrow> to_int32 v = v"
  by (simp add: to_int32_def)

lemma to_int32_uint64: "to_int32 (to_uint64 v) = to_int32 v"
proof -
  have "(v mod 2 ^ 64 + 2 ^ 31) mod 2 ^ 32 = (v + 2 ^ 31) mod (2 ^ 32 :: int)"
  proof -
    have "(v mod 2 ^ 64) mod 2 ^ 32 = v mod (2 ^ 32 :: int)"
      by (rule mod_mod_cancel) simp
    then show ?thesis
      by (metis mod_add_left_eq)
  qed
  then show ?thesis by (simp add: to_int32_def to_uint64_def)
qed

lemma cpp_div_nonneg: "0 \<le> a \<Longrightarrow> 0 < b \<Longrightarrow> cpp_div a b = a div b"
  by (cases "a = 0") (simp_all add: cpp_div_def)

lemma quot_bounds:
  assumes "0 \<le> N" "0 < T" "t \<le> T"
  shows "0 \<le> quot t T N" and "quot t T N \<le> N"
proof -
  show "0 \<le> quot t T N" using assms by (simp add: quot_def pos_imp_zdiv_nonneg_iff)
  have "int t * N \<le> int T * N" using assms by (intro mult_right_mono) simp_all
  then have "int t * N div int T \<le> int T * N div int T" by (rule zdiv_mono1) (use assms in simp)
  then show "quot t T N \<le> N" using assms by (simp add: quot_def)
qed

lemma quot_mono:
  assumes "0 \<le> N" "0 < T" "t \<le> t'"
  shows "quot t T N \<le> quot t' T N"
proof -
  have "int t * N \<le> int t' * N" using assms by (intro mult_right_mono) simp_all
  then show ?thesis unfolding quot_def by (rule zdiv_mono1) (use assms in simp)
qed

lemma quot_0 [simp]: "quot 0 T N = 0" by (simp add: quot_def)
lemma quot_T: "0 < T \<Longrightarrow> quot T T N = N" by (simp add: quot_def)

lemma quot8_bounds:
  assumes "0 \<le> N" "0 < T" "t \<le> T"
  shows "0 \<le> quot8 t T N" and "quot8 t T N \<le> quot t T N" and "quot8 t T N \<le> N"
proof -
  note q = quot_bounds [OF assms]
  show "0 \<le> quot8 t T N" using q(1) by (simp add: quot8_def pos_imp_zdiv_nonneg_iff)
  show le: "quot8 t T N \<le> quot t T N" unfolding quot8_def by simp
  with q(2) show "quot8 t T N \<le> N" by simp
qed

lemma quot8_mono:
  assumes "0 \<le> N" "0 < T" "t \<le> t'"
  shows "quot8 t T N \<le> quot8 t' T N"
proof -
  from quot_mono [OF assms] have "quot t T N div 8 \<le> quot t' T N div 8"
    by (rule zdiv_mono1) simp
  then show ?thesis by (simp add: quot8_def)
qed

lemma and_not7ul_eq: "0 \<le> v \<Longrightarrow> v < 2 ^ 64 \<Longrightarrow> and_not7ul v = 8 * (v div 8)"
  by (simp add: and_not7ul_def to_uint64_def minus_mod_eq_mult_div)

lemma vcl_l_eq:
  assumes "0 \<le> N" "N < 2 ^ 31" "0 < T" "t \<le> T"
  shows "vcl_l t T N = quot8 t T N"
proof -
  note q = quot_bounds [OF assms(1,3,4)] and q8 = quot8_bounds [OF assms(1,3,4)]
  have "cpp_div (int t * N) (int T) = quot t T N"
    using assms by (simp add: cpp_div_nonneg quot_def)
  moreover have "and_not7ul (quot t T N) = quot8 t T N"
    using q assms(2) by (simp add: and_not7ul_eq quot8_def)
  ultimately show ?thesis
    using q8 assms(2) by (simp add: vcl_l_def to_int32_id)
qed

lemma vcl_r_eq:
  assumes "0 \<le> N" "N < 2 ^ 31" "0 < T" "T < 2 ^ 32" "t < T"
  shows "vcl_r t T N = quot8 (Suc t) T N - 1"
proof -
  from assms have st: "Suc t \<le> T" by simp
  note q = quot_bounds [OF assms(1,3) st] and q8 = quot8_bounds [OF assms(1,3) st]
  have u: "to_uint32 (int t + 1) = int (Suc t)"
    using assms(4,5) by (simp add: to_uint32_def)
  have "cpp_div (int (Suc t) * N) (int T) = quot (Suc t) T N"
    using assms by (simp add: cpp_div_nonneg quot_def)
  moreover have "and_not7ul (quot (Suc t) T N) = quot8 (Suc t) T N"
    using q assms(2) by (simp add: and_not7ul_eq quot8_def)
  ultimately have "vcl_r t T N = to_int32 (quot8 (Suc t) T N - 1)"
    unfolding vcl_r_def u by (simp add: to_int32_uint64)
  also have "\<dots> = quot8 (Suc t) T N - 1"
    using q8 assms(2) by (intro to_int32_id) simp_all
  finally show ?thesis .
qed

lemma scalar_l_eq:
  assumes "0 \<le> N" "N < 2 ^ 31" "0 < T" "t \<le> T"
  shows "scalar_l t T N = quot t T N"
proof -
  note q = quot_bounds [OF assms(1,3,4)]
  have "cpp_div (int t * N) (int T) = quot t T N"
    using assms by (simp add: cpp_div_nonneg quot_def)
  then show ?thesis using q assms(2) by (simp add: scalar_l_def to_int32_id)
qed

lemma scalar_r_eq:
  assumes "0 \<le> N" "N < 2 ^ 31" "0 < T" "T < 2 ^ 32" "t < T"
  shows "scalar_r t T N = quot (Suc t) T N - 1"
proof -
  from assms have st: "Suc t \<le> T" by simp
  note q = quot_bounds [OF assms(1,3) st]
  have u: "to_uint32 (int t + 1) = int (Suc t)"
    using assms(4,5) by (simp add: to_uint32_def)
  have "cpp_div (int (Suc t) * N) (int T) = quot (Suc t) T N"
    using assms by (simp add: cpp_div_nonneg quot_def)
  then show ?thesis unfolding scalar_r_def u using q assms(2) by (simp add: to_int32_id)
qed

lemma map_upto: "map (\<lambda>k. i + int k) [0..<n] = [i..i + int n - 1]"
proof (induction n)
  case 0
  then show ?case by simp
next
  case (Suc n)
  have "[i..i + int (Suc n) - 1] = [i..i + int n - 1] @ [i + int n]"
    using upto_rec2 [of i "i + int n"] by simp
  with Suc show ?case by simp
qed

lemma loop_step8_lanes:
  "0 \<le> m \<Longrightarrow>
   concat (map (\<lambda>i. map (\<lambda>k. i + int k) [0..<8]) (loop_step8 l (l + 8 * m - 1))) =
   [l..l + 8 * m - 1]"
proof (induction "nat m" arbitrary: l m)
  case 0
  then have "m = 0" by simp
  then show ?case by (subst loop_step8.simps) simp
next
  case (Suc n)
  then have m: "0 < m" and n: "n = nat (m - 1)" by simp_all
  from m have e: "loop_step8 l (l + 8 * m - 1) = l # loop_step8 (l + 8) (l + 8 + 8 * (m - 1) - 1)"
    by (subst loop_step8.simps) (simp add: algebra_simps)
  have m1: "0 \<le> m - 1" using m by simp
  have ih: "concat (map (\<lambda>i. map (\<lambda>k. i + int k) [0..<8])
      (loop_step8 (l + 8) (l + 8 + 8 * (m - 1) - 1))) = [l + 8..l + 8 + 8 * (m - 1) - 1]"
    by (rule Suc.hyps(1) [OF n m1])
  have r: "l + 8 + 8 * (m - 1) - 1 = l + 8 * m - 1" by simp
  have "[l..l + 8 * m - 1] = [l..l + 7] @ [l + 7 + 1..l + 8 * m - 1]"
    using m by (intro upto_split2) simp_all
  moreover have "l + 7 + 1 = l + 8" "l + 7 = l + 8 - 1" by simp_all
  ultimately have "[l..l + 8 * m - 1] = [l..l + 8 - 1] @ [l + 8..l + 8 * m - 1]"
    by (simp only:)
  also have "[l..l + 8 - 1] = map (\<lambda>k. l + int k) [0..<8]"
    using map_upto [of l 8] by simp
  finally have sp: "[l..l + 8 * m - 1] = map (\<lambda>k. l + int k) [0..<8] @ [l + 8..l + 8 * m - 1]" .
  have "concat (map (\<lambda>i. map (\<lambda>k. i + int k) [0..<8]) (loop_step8 l (l + 8 * m - 1))) =
      map (\<lambda>k. l + int k) [0..<8] @ [l + 8..l + 8 + 8 * (m - 1) - 1]"
    unfolding e by (simp only: list.map concat.simps ih)
  also have "\<dots> = [l..l + 8 * m - 1]"
    unfolding r sp ..
  finally show ?case .
qed

lemma vcl_batches_lanes:
  assumes "0 \<le> N" "N < 2 ^ 31" "0 < T" "T < 2 ^ 32" "t < T"
  shows "concat (map (\<lambda>i. map (\<lambda>k. i + int k) [0..<8]) (vcl_batches t T N)) =
         [quot8 t T N..quot8 (Suc t) T N - 1]"
proof -
  from assms have le: "t \<le> T" by simp
  define m where "m = quot (Suc t) T N div 8 - quot t T N div 8"
  have "quot t T N div 8 \<le> quot (Suc t) T N div 8"
    by (rule zdiv_mono1 [OF quot_mono [OF assms(1,3)]]) simp_all
  then have m0: "0 \<le> m" by (simp add: m_def)
  have r: "quot8 (Suc t) T N - 1 = quot8 t T N + 8 * m - 1"
    by (simp add: quot8_def m_def algebra_simps)
  show ?thesis
    unfolding vcl_batches_def vcl_l_eq [OF assms(1-3) le] vcl_r_eq [OF assms] r
    by (rule loop_step8_lanes [OF m0])
qed

lemma vcl_tail_eq:
  assumes "0 \<le> N" "N < 2 ^ 31" "0 < T" "T < 2 ^ 32" "t < T"
  shows "vcl_tail t T N =
    (if Suc t = T \<and> N mod 8 \<noteq> 0 then Some (8 * (N div 8), N mod 8) else None)"
proof -
  have u: "to_uint32 (int t + 1) = int (Suc t)"
    using assms(4,5) by (simp add: to_uint32_def)
  show ?thesis
  proof (cases "Suc t = T")
    case True
    have "quot8 (Suc t) T N = 8 * (N div 8)"
      using assms(3) True by (simp add: quot8_def quot_T)
    moreover have "8 * (N div 8) = N \<longleftrightarrow> N mod 8 = 0"
    proof -
      have "8 * (N div 8) = N - N mod 8" by (simp add: minus_mod_eq_mult_div [symmetric])
      then show ?thesis by linarith
    qed
    moreover have "N - 8 * (N div 8) = N mod 8"
      by (simp add: minus_mult_div_eq_mod)
    ultimately show ?thesis
      using True unfolding vcl_tail_def u vcl_r_eq [OF assms] by auto
  next
    case False
    then show ?thesis unfolding vcl_tail_def u by simp
  qed
qed

lemma filter_below: "filter (\<lambda>k. int k < n) [0..<j] = [0..<min (nat n) j]"
proof (induction j)
  case 0
  then show ?case by simp
next
  case (Suc j)
  show ?case
  proof (cases "int j < n")
    case True
    then have "min (nat n) (Suc j) = Suc j" "min (nat n) j = j" by simp_all
    with Suc True show ?thesis by simp
  next
    case False
    then have "min (nat n) (Suc j) = nat n" "min (nat n) j = nat n" by simp_all
    with Suc False show ?thesis by simp
  qed
qed

lemma vcl_indices_eq:
  assumes "0 \<le> N" "N < 2 ^ 31" "0 < T" "T < 2 ^ 32" "t < T"
  shows "vcl_indices t T N = [quot8 t T N..(if Suc t = T then N else quot8 (Suc t) T N) - 1]"
proof (cases "Suc t = T \<and> N mod 8 \<noteq> 0")
  case True
  have "0 \<le> N mod 8" by simp
  with True have "0 < N mod 8" by linarith
  then have n: "0 < N mod 8" "N mod 8 < 8"
    by simp_all
  have f: "filter (\<lambda>k. int k < N mod 8) [0..<8] = [0..<nat (N mod 8)]"
    using n by (simp add: filter_below)
  have q: "quot8 (Suc t) T N = 8 * (N div 8)"
    using assms(3) True by (simp add: quot8_def quot_T)
  have tl: "map (\<lambda>k. 8 * (N div 8) + int k) (filter (\<lambda>k. int k < N mod 8) [0..<8]) =
     [8 * (N div 8)..N - 1]"
    unfolding f map_upto using n by simp
  have "[quot8 t T N..N - 1] = [quot8 t T N..8 * (N div 8) - 1] @ [8 * (N div 8)..N - 1]"
  proof (rule upto_split1)
    show "quot8 t T N \<le> 8 * (N div 8)"
      using quot8_mono [OF assms(1,3), of t "Suc t"] q by simp
    have "8 * (N div 8) = N - N mod 8" by (simp add: minus_mod_eq_mult_div [symmetric])
    with n show "8 * (N div 8) \<le> N - 1" by linarith
  qed
  moreover have "quot8 T T N = 8 * (N div 8)"
    using assms(3) by (simp add: quot8_def quot_T)
  ultimately show ?thesis
    using True
    by (simp add: vcl_indices_def vcl_batches_lanes [OF assms] vcl_tail_eq [OF assms] tl q)
next
  case False
  have "quot8 (Suc t) T N = N" if "Suc t = T"
  proof -
    from that False have "N mod 8 = 0" by simp
    moreover have "8 * (N div 8) = N - N mod 8" by (simp add: minus_mod_eq_mult_div [symmetric])
    ultimately have "8 * (N div 8) = N" by simp
    with that assms(3) show ?thesis by (simp add: quot8_def quot_T)
  qed
  with False show ?thesis
    by (auto simp: vcl_indices_def vcl_batches_lanes [OF assms] vcl_tail_eq [OF assms])
qed

lemma scalar_indices_eq:
  assumes "0 \<le> N" "N < 2 ^ 31" "0 < T" "T < 2 ^ 32" "t < T"
  shows "scalar_indices t T N = [quot t T N..quot (Suc t) T N - 1]"
  using assms by (simp add: scalar_indices_def scalar_l_eq scalar_r_eq)

lemma concat_upto:
  fixes f :: "nat \<Rightarrow> int"
  assumes "\<And>t. t < k \<Longrightarrow> f t \<le> f (Suc t)"
  shows "concat (map (\<lambda>t. [f t..f (Suc t) - 1]) [0..<k]) = [f 0..f k - 1]"
  using assms
proof (induction k)
  case 0
  then show ?case by simp
next
  case (Suc k)
  have m: "f 0 \<le> f k"
    using Suc.prems by (induction k) (auto intro: order_trans)
  have "[f 0..f (Suc k) - 1] = [f 0..f k - 1] @ [f k..f (Suc k) - 1]"
  proof (cases "f k = f (Suc k)")
    case True
    then show ?thesis by simp
  next
    case False
    with Suc.prems [of k] have "f k \<le> f (Suc k) - 1" by simp
    with m show ?thesis by (intro upto_split1)
  qed
  moreover have "concat (map (\<lambda>t. [f t..f (Suc t) - 1]) [0..<k]) = [f 0..f k - 1]"
    using Suc.prems by (intro Suc.IH) simp
  ultimately show ?case by simp
qed

lemma vcl_concat:
  assumes "0 \<le> N" "N < 2 ^ 31" "0 < T" "T < 2 ^ 32"
  shows "concat (map (\<lambda>t. vcl_indices t T N) [0..<T]) = [0..N - 1]"
proof -
  define E where "E t = (if t = T then N else quot8 t T N)" for t
  have mono: "E t \<le> E (Suc t)" if "t < T" for t
    using that quot8_mono [OF assms(1,3), of t "Suc t"] quot8_bounds(3) [OF assms(1,3), of t]
    by (auto simp: E_def)
  have "map (\<lambda>t. vcl_indices t T N) [0..<T] = map (\<lambda>t. [E t..E (Suc t) - 1]) [0..<T]"
    by (rule map_cong [OF refl]) (simp add: vcl_indices_eq [OF assms] E_def)
  then have "concat (map (\<lambda>t. vcl_indices t T N) [0..<T]) =
      concat (map (\<lambda>t. [E t..E (Suc t) - 1]) [0..<T])"
    by (rule arg_cong)
  also have "\<dots> = [E 0..E T - 1]"
    by (rule concat_upto [of T E, OF mono])
  also have "E 0 = 0" using assms(3) by (simp add: E_def quot8_def)
  also have "E T = N" by (simp add: E_def)
  finally show ?thesis .
qed

lemma scalar_concat:
  assumes "0 \<le> N" "N < 2 ^ 31" "0 < T" "T < 2 ^ 32"
  shows "concat (map (\<lambda>t. scalar_indices t T N) [0..<T]) = [0..N - 1]"
proof -
  have mono: "quot t T N \<le> quot (Suc t) T N" if "t < T" for t
    by (rule quot_mono [OF assms(1,3)]) simp
  have "map (\<lambda>t. scalar_indices t T N) [0..<T] =
      map (\<lambda>t. [quot t T N..quot (Suc t) T N - 1]) [0..<T]"
    by (rule map_cong [OF refl]) (simp add: scalar_indices_eq [OF assms])
  then have "concat (map (\<lambda>t. scalar_indices t T N) [0..<T]) =
      concat (map (\<lambda>t. [quot t T N..quot (Suc t) T N - 1]) [0..<T])"
    by (rule arg_cong)
  also have "\<dots> = [quot 0 T N..quot T T N - 1]"
    by (rule concat_upto [of T "\<lambda>t. quot t T N", OF mono])
  finally show ?thesis using assms(3) by (simp add: quot_T)
qed

lemma vcl_unique_worker:
  assumes "0 \<le> N" "N < 2 ^ 31" "0 < T" "T < 2 ^ 32" and i: "0 \<le> i" "i < N"
  shows "\<exists>!t. t < T \<and> i \<in> set (vcl_indices t T N)"
proof -
  define E where "E t = (if t = T then N else quot8 t T N)" for t
  have mono: "E t \<le> E t'" if "t \<le> t'" "t' \<le> T" for t t'
    using that quot8_mono [OF assms(1,3), of t t'] quot8_bounds(3) [OF assms(1,3), of t]
    by (auto simp: E_def)
  have mem: "i \<in> set (vcl_indices t T N) \<longleftrightarrow> E t \<le> i \<and> i < E (Suc t)" if "t < T" for t
    using that by (auto simp: vcl_indices_eq [OF assms(1-4) that] E_def)
  from i have "i \<in> set (concat (map (\<lambda>t. vcl_indices t T N) [0..<T]))"
    by (simp add: vcl_concat [OF assms(1-4)])
  then obtain t where t: "t < T" "i \<in> set (vcl_indices t T N)" by auto
  show ?thesis
  proof (rule ex1I [of _ t])
    show "t < T \<and> i \<in> set (vcl_indices t T N)" using t by simp
    fix t' assume t': "t' < T \<and> i \<in> set (vcl_indices t' T N)"
    show "t' = t"
    proof (rule ccontr)
      assume "t' \<noteq> t"
      then consider "t < t'" | "t' < t" by linarith
      then show False
      proof cases
        case 1
        then have "E (Suc t) \<le> E t'" using t' by (intro mono) simp_all
        with mem [of t] mem [of t'] t t' show False by simp
      next
        case 2
        then have "E (Suc t') \<le> E t" using t by (intro mono) simp_all
        with mem [of t] mem [of t'] t t' show False by simp
      qed
    qed
  qed
qed

lemma partial_zero_lanes:
  fixes a b :: "int \<Rightarrow> 'v::zero" and tp :: "'v \<Rightarrow> 'v \<Rightarrow> 'v \<times> 'v"
  assumes "k < 8" "n \<le> int k"
  shows "make_vcl_vec8d_partial a r n ! k = 0"
    and "TwoProductFMA_x tp (make_vcl_vec8d_partial a r n) (make_vcl_vec8d_partial b r n) ! k =
         fst (tp 0 0)"
    and "TwoProductFMA_r1 tp (make_vcl_vec8d_partial a r n) (make_vcl_vec8d_partial b r n) ! k =
         snd (tp 0 0)"
proof -
  have l: "length (make_vcl_vec8d_partial a r n) = 8" "length (make_vcl_vec8d_partial b r n) = 8"
    by (simp_all add: make_vcl_vec8d_partial_def)
  have z: "make_vcl_vec8d_partial a r n ! k = 0" "make_vcl_vec8d_partial b r n ! k = 0"
    using assms unfolding make_vcl_vec8d_partial_def by (simp_all del: upt_Suc)
  show "make_vcl_vec8d_partial a r n ! k = 0" by (rule z)
  show "TwoProductFMA_x tp (make_vcl_vec8d_partial a r n) (make_vcl_vec8d_partial b r n) ! k =
         fst (tp 0 0)"
    using assms(1) l z by (simp add: TwoProductFMA_x_def)
  show "TwoProductFMA_r1 tp (make_vcl_vec8d_partial a r n) (make_vcl_vec8d_partial b r n) ! k =
         snd (tp 0 0)"
    using assms(1) l z by (simp add: TwoProductFMA_r1_def)
qed

section \<open>The value of the output\<close>

lemma local_sum_Inr:
  assumes "local_sum C fed t st = Inr st'"
  shows "\<exists>n. Normalize (Flush C (foldl (Accumulate C) (cache_new C (acc st ! t)) (fed t)))
             IMIN IMAX = Inr n \<and>
           st' = st\<lparr>acc := (acc st)[t := n], ready := (ready st)[t := 0]\<rparr>"
  using assms by (auto simp: local_sum_def split: sum.splits)

lemma update_zero: "set xs \<subseteq> {0::nat} \<Longrightarrow> xs[t := 0] = xs"
proof -
  assume a: "set xs \<subseteq> {0}"
  have "xs[t := 0] = xs[t := xs ! t]" if "t < length xs"
    using a that by (metis nth_mem singletonD subsetD)
  then show ?thesis by (cases "t < length xs") (simp_all add: list_update_beyond)
qed

lemma local_phase:
  assumes "run_threads (local_sum C fed) ts st = Inr st'" and "distinct ts"
    and "\<forall>t\<in>set ts. t < length (acc st)" and "set (ready st) \<subseteq> {0}"
  shows "length (acc st') = length (acc st) \<and> ready st' = ready st \<and>
    (\<forall>t<length (acc st).
       if t \<in> set ts
       then Normalize (Flush C (foldl (Accumulate C) (cache_new C (acc st ! t)) (fed t)))
              IMIN IMAX = Inr (acc st' ! t)
       else acc st' ! t = acc st ! t)"
  using assms
proof (induction ts arbitrary: st)
  case Nil
  then show ?case by simp
next
  case (Cons t ts)
  from Cons.prems(1) obtain st1 where
    one: "local_sum C fed t st = Inr st1"
    and rest: "run_threads (local_sum C fed) ts st1 = Inr st'"
    by (auto split: sum.splits)
  from local_sum_Inr [OF one] obtain n where
    n: "Normalize (Flush C (foldl (Accumulate C) (cache_new C (acc st ! t)) (fed t)))
             IMIN IMAX = Inr n"
    and st1: "st1 = st\<lparr>acc := (acc st)[t := n], ready := (ready st)[t := 0]\<rparr>"
    by blast
  have r1: "ready st1 = ready st"
    using Cons.prems(4) by (simp add: st1 update_zero)
  have l1: "length (acc st1) = length (acc st)" by (simp add: st1)
  from Cons.prems(2,3) have tt: "t \<notin> set ts" "t < length (acc st)" by simp_all
  have ih: "length (acc st') = length (acc st1) \<and> ready st' = ready st1 \<and>
    (\<forall>u<length (acc st1).
       if u \<in> set ts
       then Normalize (Flush C (foldl (Accumulate C) (cache_new C (acc st1 ! u)) (fed u)))
              IMIN IMAX = Inr (acc st' ! u)
       else acc st' ! u = acc st1 ! u)"
    using Cons.prems(2,3,4) by (intro Cons.IH [OF rest]) (simp_all add: l1 r1)
  have key: "if u \<in> set (t # ts)
       then Normalize (Flush C (foldl (Accumulate C) (cache_new C (acc st ! u)) (fed u)))
              IMIN IMAX = Inr (acc st' ! u)
       else acc st' ! u = acc st ! u" if u: "u < length (acc st)" for u
  proof (cases "u = t")
    case True
    with ih tt l1 have "acc st' ! u = acc st1 ! t" by simp
    also have "\<dots> = n" using tt by (simp add: st1)
    finally show ?thesis using True n by simp
  next
    case False
    then have "acc st1 ! u = acc st ! u" by (simp add: st1)
    with ih u l1 False show ?thesis by auto
  qed
  from ih l1 r1 have A: "length (acc st') = length (acc st)" and B: "ready st' = ready st"
    by simp_all
  from A B key show ?case by blast
qed

lemma ExDOTFPE_run_Inr:
  assumes "ExDOTFPE_run without_vcl C fed T = Inr out"
  shows "\<exists>st1 st2. length (acc st1) = T \<and> ready st1 = replicate T 0 \<and>
     (\<forall>t<T. Normalize (local_acc C (fed t)) IMIN IMAX = Inr (acc st1 ! t)) \<and>
     Reduction without_vcl T st1 = Inr st2 \<and> out = copy_out st2"
proof -
  let ?st0 = "\<lparr>acc = replicate T (replicate BIN_COUNT 0), ready = replicate T 0\<rparr>"
  from assms obtain st1 st2 where
    a: "run_threads (local_sum C fed) [0..<T] ?st0 = Inr st1"
    and b: "Reduction without_vcl T st1 = Inr st2" and c: "out = copy_out st2"
    by (auto simp: ExDOTFPE_run_def split: sum.splits)
  have "length (acc st1) = length (acc ?st0) \<and> ready st1 = ready ?st0 \<and>
    (\<forall>t<length (acc ?st0).
       if t \<in> set [0..<T]
       then Normalize (Flush C (foldl (Accumulate C) (cache_new C (acc ?st0 ! t)) (fed t)))
              IMIN IMAX = Inr (acc st1 ! t)
       else acc st1 ! t = acc ?st0 ! t)"
    by (rule local_phase [OF a]) auto
  then have "length (acc st1) = T \<and> ready st1 = replicate T 0 \<and>
     (\<forall>t<T. Normalize (local_acc C (fed t)) IMIN IMAX = Inr (acc st1 ! t))"
    by (simp add: local_acc_def)
  with b c show ?thesis by blast
qed

lemma ExDOTFPE_run_value:
  assumes r: "ExDOTFPE_run without_vcl C fed T = Inr out" and T: "0 < T"
    and ex: "\<forall>t<T. cache_exact C val ulp (fed t)"
  shows "of_int (logical_value out) * ulp = (\<Sum>t<T. sum_list (map val (fed t)))"
    and "length out = BIN_COUNT"
    and "T = 1 \<Longrightarrow> normalized out"
proof -
  from ExDOTFPE_run_Inr [OF r] obtain st1 st2 where
    l: "length (acc st1) = T"
    and n: "\<forall>t<T. Normalize (local_acc C (fed t)) IMIN IMAX = Inr (acc st1 ! t)"
    and red: "Reduction without_vcl T st1 = Inr st2" and out: "out = copy_out st2"
    by blast
  have v: "logical_value (acc st1 ! t) = logical_value (local_acc C (fed t))"
    and len: "length (acc st1 ! t) = BIN_COUNT" and nf: "normalized (acc st1 ! t)" if "t < T" for t
    using Normalize_value [of "local_acc C (fed t)" "acc st1 ! t"] n ex that
    by (simp_all add: cache_exact_def)
  have sh: "acc_shape T st1"
    using l len by (intro acc_shapeI) simp_all
  note rs = Reduction_sum [OF red T sh]
  from rs(2) T have l0: "length (acc st2 ! 0) = BIN_COUNT" by (rule acc_shape_nth)
  then have o: "out = acc st2 ! 0" by (simp add: out copy_out_eq)
  with l0 show "length out = BIN_COUNT" by simp
  have "logical_value out = (\<Sum>t<T. logical_value (local_acc C (fed t)))"
    using rs(1) v by (simp add: o acc_value_def)
  then have "of_int (logical_value out) * ulp =
      (\<Sum>t<T. of_int (logical_value (local_acc C (fed t))) * ulp)"
    by (simp add: sum_distrib_right)
  also have "\<dots> = (\<Sum>t<T. sum_list (map val (fed t)))"
    using ex by (intro sum.cong) (simp_all add: cache_exact_def)
  finally show "of_int (logical_value out) * ulp = (\<Sum>t<T. sum_list (map val (fed t)))" .
  show "normalized out" if "T = 1"
  proof -
    have "level_numbers 1 1 = []" by (subst level_numbers.simps) simp
    then have "Reduction without_vcl 1 st1 = Inr st1"
      by (simp add: Reduction_def Reduction_levels_run)
    with red that have "st2 = st1" by simp
    with o nf [of 0] that show ?thesis by simp
  qed
qed

lemma ExDOTFPE_run_determined:
  assumes "ExDOTFPE_run without_vcl C fed T = Inr out"
    and "ExDOTFPE_run without_vcl C' fed' T = Inr out'"
    and "\<forall>t<T. length (local_acc C (fed t)) = BIN_COUNT \<and>
            length (local_acc C' (fed' t)) = BIN_COUNT \<and>
            logical_value (local_acc C (fed t)) = logical_value (local_acc C' (fed' t))"
  shows "out = out'"
proof -
  from ExDOTFPE_run_Inr [OF assms(1)] obtain st1 st2 where
    l: "length (acc st1) = T" and rd: "ready st1 = replicate T 0"
    and n: "\<forall>t<T. Normalize (local_acc C (fed t)) IMIN IMAX = Inr (acc st1 ! t)"
    and red: "Reduction without_vcl T st1 = Inr st2" and out: "out = copy_out st2"
    by blast
  from ExDOTFPE_run_Inr [OF assms(2)] obtain st1' st2' where
    l': "length (acc st1') = T" and rd': "ready st1' = replicate T 0"
    and n': "\<forall>t<T. Normalize (local_acc C' (fed' t)) IMIN IMAX = Inr (acc st1' ! t)"
    and red': "Reduction without_vcl T st1' = Inr st2'" and out': "out' = copy_out st2'"
    by blast
  have "acc st1 ! t = acc st1' ! t" if t: "t < T" for t
  proof -
    from assms(3) t have a: "length (local_acc C (fed t)) = BIN_COUNT"
      "length (local_acc C' (fed' t)) = BIN_COUNT"
      "logical_value (local_acc C (fed t)) = logical_value (local_acc C' (fed' t))"
      by simp_all
    from n t have N: "Normalize (local_acc C (fed t)) IMIN IMAX = Inr (acc st1 ! t)" by simp
    from n' t have N': "Normalize (local_acc C' (fed' t)) IMIN IMAX = Inr (acc st1' ! t)" by simp
    note v = Normalize_value [OF N a(1)] and v' = Normalize_value [OF N' a(2)]
    show ?thesis
      by (rule normalized_unique) (simp_all add: v v' a(3))
  qed
  then have "acc st1 = acc st1'"
    using l l' by (intro nth_equalityI) simp_all
  with rd rd' have "st1 = st1'" by simp
  with red red' out out' show ?thesis by simp
qed

lemma sum_list_threads:
  fixes g :: "'a \<Rightarrow> real"
  shows "(\<Sum>t<T. sum_list (map g (ix t))) = sum_list (map g (concat (map ix [0..<T])))"
proof -
  have "sum_list (map g (concat (map ix [0..<T]))) =
      sum_list (map (\<lambda>t. sum_list (map g (ix t))) [0..<T])"
    by (induction T) simp_all
  also have "\<dots> = (\<Sum>t<T. sum_list (map g (ix t)))"
    by (simp add: interv_sum_list_conv_sum_set_nat atLeast0LessThan)
  finally show ?thesis by simp
qed

lemma sum_list_upto:
  fixes g :: "int \<Rightarrow> real"
  shows "sum_list (map g [0..N - 1]) = (\<Sum>i = 0..<N. g i)"
proof -
  have "{0..N - 1} = {0..<N}" by auto
  then show ?thesis by (simp add: interv_sum_list_conv_sum_set_int)
qed

lemma batch_sum:
  "lane_sum R (TwoProductFMA_x tp (make_vcl_vec8d a i) (make_vcl_vec8d b i)) +
   lane_sum R (TwoProductFMA_r1 tp (make_vcl_vec8d a i) (make_vcl_vec8d b i)) =
   sum_list (map (\<lambda>j. R (fst (tp (a j) (b j))) + R (snd (tp (a j) (b j))))
     (map (\<lambda>k. i + int k) [0..<8]))"
  unfolding lane_sum_def TwoProductFMA_x_def TwoProductFMA_r1_def make_vcl_vec8d_def
  by (simp only: map2_map_map map_map comp_def sum_list_addf)

lemma tail_sum:
  assumes "R (fst (tp 0 0)) + R (snd (tp 0 0)) = 0"
  shows "lane_sum R (TwoProductFMA_x tp (make_vcl_vec8d_partial a r n) (make_vcl_vec8d_partial b r n)) +
   lane_sum R (TwoProductFMA_r1 tp (make_vcl_vec8d_partial a r n) (make_vcl_vec8d_partial b r n)) =
   sum_list (map (\<lambda>j. R (fst (tp (a j) (b j))) + R (snd (tp (a j) (b j))))
     (map (\<lambda>k. r + int k) (filter (\<lambda>k. int k < n) [0..<8])))"
proof -
  let ?g = "\<lambda>j. R (fst (tp (a j) (b j))) + R (snd (tp (a j) (b j)))"
  let ?pa = "\<lambda>k. if int k < n then a (r + int k) else 0"
  let ?pb = "\<lambda>k. if int k < n then b (r + int k) else 0"
  have "lane_sum R (TwoProductFMA_x tp (make_vcl_vec8d_partial a r n) (make_vcl_vec8d_partial b r n)) +
   lane_sum R (TwoProductFMA_r1 tp (make_vcl_vec8d_partial a r n) (make_vcl_vec8d_partial b r n)) =
     sum_list (map (\<lambda>k. R (fst (tp (?pa k) (?pb k))) + R (snd (tp (?pa k) (?pb k)))) [0..<8])"
    unfolding lane_sum_def TwoProductFMA_x_def TwoProductFMA_r1_def make_vcl_vec8d_partial_def
    by (simp only: map2_map_map map_map comp_def sum_list_addf)
  also have "\<dots> = sum_list (map (\<lambda>k. if int k < n then ?g (r + int k) else 0) [0..<8])"
    by (rule arg_cong [where f = sum_list], rule map_cong [OF refl]) (simp add: assms)
  also have "\<dots> = sum_list (map (\<lambda>k. ?g (r + int k)) (filter (\<lambda>k. int k < n) [0..<8]))"
    by (rule sum_list_map_filter' [symmetric])
  finally show ?thesis by (simp only: map_map comp_def)
qed

lemma vcl_fed2_sum:
  assumes "R (fst (tp 0 0)) + R (snd (tp 0 0)) = 0"
  shows "sum_list (map (lane_sum R) (vcl_fed2 tp t T N a b)) =
    sum_list (map (\<lambda>j. R (fst (tp (a j) (b j))) + R (snd (tp (a j) (b j)))) (vcl_indices t T N))"
proof -
  let ?g = "\<lambda>j. R (fst (tp (a j) (b j))) + R (snd (tp (a j) (b j)))"
  have main: "sum_list (map (lane_sum R)
      (concat (map (\<lambda>i. [TwoProductFMA_x tp (make_vcl_vec8d a i) (make_vcl_vec8d b i),
                        TwoProductFMA_r1 tp (make_vcl_vec8d a i) (make_vcl_vec8d b i)]) bs))) =
     sum_list (map ?g (concat (map (\<lambda>i. map (\<lambda>k. i + int k) [0..<8]) bs)))" for bs
  proof (induction bs)
    case Nil
    then show ?case by simp
  next
    case (Cons i bs)
    show ?case
      using Cons batch_sum [of R tp a i b] by (simp del: upt_Suc)
  qed
  show ?thesis
  proof (cases "vcl_tail t T N")
    case None
    then show ?thesis
      by (simp add: vcl_fed2_def vcl_indices_def main)
  next
    case (Some rn)
    obtain r n where rn: "rn = (r, n)" by (cases rn)
    from Some rn tail_sum [of R tp a r n b, OF assms] show ?thesis
      by (simp add: vcl_fed2_def vcl_indices_def main del: upt_Suc)
  qed
qed

lemma scalar_fed2_sum:
  "sum_list (map R (scalar_fed2 tp t T N a b)) =
    sum_list (map (\<lambda>j. R (fst (tp (a j) (b j))) + R (snd (tp (a j) (b j)))) (scalar_indices t T N))"
proof -
  have "sum_list (map R (concat (map (\<lambda>i. [fst (tp (a i) (b i)), snd (tp (a i) (b i))]) xs))) =
    sum_list (map (\<lambda>j. R (fst (tp (a j) (b j))) + R (snd (tp (a j) (b j)))) xs)" for xs
    by (induction xs) (simp_all add: add.assoc)
  then show ?thesis by (simp add: scalar_fed2_def get_element_def)
qed

lemma vcl_total:
  fixes R :: "'v::zero \<Rightarrow> real"
  assumes "0 \<le> N" "N < 2 ^ 31" "0 < T" "T < 2 ^ 32"
    and "R (fst (tp 0 0)) + R (snd (tp 0 0)) = 0"
  shows "(\<Sum>t<T. sum_list (map (lane_sum R) (vcl_fed2 tp t T N a b))) =
     (\<Sum>i = 0..<N. R (fst (tp (a i) (b i))) + R (snd (tp (a i) (b i))))"
  by (simp only: vcl_fed2_sum [of R tp, OF assms(5)] sum_list_threads vcl_concat [OF assms(1-4)] sum_list_upto)

lemma scalar_total:
  fixes R :: "'v \<Rightarrow> real"
  assumes "0 \<le> N" "N < 2 ^ 31" "0 < T" "T < 2 ^ 32"
  shows "(\<Sum>t<T. sum_list (map R (scalar_fed2 tp t T N a b))) =
     (\<Sum>i = 0..<N. R (fst (tp (a i) (b i))) + R (snd (tp (a i) (b i))))"
  by (simp only: scalar_fed2_sum sum_list_threads scalar_concat [OF assms(1-4)] sum_list_upto)

lemma to_int32_size: "sz < 2 ^ 31 \<Longrightarrow> to_int32 (int sz) = int sz"
  by (rule to_int32_id) simp_all


lemma logical_value_zeros [simp]: "logical_value (replicate n 0) = 0"
  by (induction n) simp_all

lemma sint_word_of_int_64:
  "- (2 ^ 63) \<le> S \<Longrightarrow> S < 2 ^ 63 \<Longrightarrow> sint (word_of_int S :: 64 word) = S"
  by (simp add: sint_sbintrunc' signed_take_bit_int_eq_self)

lemma real_sum_list: "real_of_int (sum_list xs) = sum_list (map real_of_int xs)"
  by (induction xs) simp_all

lemma direct_fold8:
  "a \<noteq> [] \<Longrightarrow> foldl (\<lambda>a x. a[0 := a ! 0 + word_of_int (sum_list x)]) a xs =
     a[0 := a ! 0 + word_of_int (sum_list (map sum_list xs))]"
proof (induction xs arbitrary: a)
  case Nil
  then show ?case by simp
next
  case (Cons x xs)
  from Cons.prems have "a[0 := a ! 0 + word_of_int (sum_list x)] \<noteq> []" by simp
  from Cons.IH [OF this] Cons.prems show ?case
    by (cases a) (simp_all add: add.assoc)
qed

lemma direct_fold:
  "a \<noteq> [] \<Longrightarrow> foldl (\<lambda>a x. a[0 := a ! 0 + word_of_int x]) a xs =
     a[0 := a ! 0 + word_of_int (sum_list xs)]"
proof (induction xs arbitrary: a)
  case Nil
  then show ?case by simp
next
  case (Cons x xs)
  from Cons.prems have "a[0 := a ! 0 + word_of_int x] \<noteq> []" by simp
  from Cons.IH [OF this] Cons.prems show ?case
    by (cases a) (simp_all add: add.assoc)
qed

lemma local_acc_direct8:
  "local_acc direct_cache8 xs = word_of_int (sum_list (map sum_list xs)) # replicate 38 0"
proof -
  have b: "BIN_COUNT = Suc 38" by (simp add: BIN_COUNT_def)
  have "replicate BIN_COUNT (0 :: 64 word) = 0 # replicate 38 0"
    unfolding b by (rule replicate_Suc)
  then show ?thesis
    by (simp add: local_acc_def direct_cache8_def direct_fold8)
qed

lemma local_acc_direct:
  "local_acc direct_cache xs = word_of_int (sum_list xs) # replicate 38 0"
proof -
  have b: "BIN_COUNT = Suc 38" by (simp add: BIN_COUNT_def)
  have "replicate BIN_COUNT (0 :: 64 word) = 0 # replicate 38 0"
    unfolding b by (rule replicate_Suc)
  then show ?thesis
    by (simp add: local_acc_def direct_cache_def direct_fold)
qed

lemma direct_cache8_exact:
  assumes "- (2 ^ 63) \<le> sum_list (map sum_list xs)" "sum_list (map sum_list xs) < 2 ^ 63"
  shows "cache_exact direct_cache8 (lane_sum real_of_int) 1 xs"
proof -
  have "sum_list (map (lane_sum real_of_int) xs) = real_of_int (sum_list (map sum_list xs))"
    by (induction xs) (simp_all add: lane_sum_def real_sum_list)
  then show ?thesis
    using assms
    by (simp add: cache_exact_def local_acc_direct8 sint_word_of_int_64 BIN_COUNT_def)
qed

lemma direct_cache_exact:
  assumes "- (2 ^ 63) \<le> sum_list xs" "sum_list xs < 2 ^ 63"
  shows "cache_exact direct_cache real_of_int 1 xs"
  using assms
  by (simp add: cache_exact_def local_acc_direct sint_word_of_int_64 BIN_COUNT_def
      real_sum_list)




section \<open>The output and the number of threads\<close>

lemma same_value_same_normal_form:
  assumes "logical_value a = logical_value b" and "length a = BIN_COUNT" and "length b = BIN_COUNT"
    and "Normalize a IMIN IMAX = Inr n" and "Normalize b IMIN IMAX = Inr n'"
  shows "n = n'"
proof -
  note v = Normalize_value [OF assms(4,2)] and v' = Normalize_value [OF assms(5,3)]
  show ?thesis by (rule normalized_unique) (simp_all add: v v' assms(1))
qed

lemma Normalize_normalized_id:
  assumes "normalized a" and "length a = BIN_COUNT" and "Normalize a IMIN IMAX = Inr n"
  shows "n = a"
proof -
  note v = Normalize_value [OF assms(3,2)]
  show ?thesis by (rule normalized_unique) (simp_all add: v assms)
qed


text \<open>
  Claim C2, as amended. For every \<open>N \<ge> 0\<close> and every thread count \<open>T \<ge> 1\<close>,
  \<^verbatim>\<open>exdot(N, x, y)\<close> with \<open>T\<close> threads produces a superaccumulator of the same
  logical value as the run with one thread, and normalizing it gives the bits
  of that run; the run with one thread outputs a normalized superaccumulator.
  The bits themselves differ in general (the counterexample below: 16 elements,
  two threads): the last \<^verbatim>\<open>ReductionStep\<close> leaves \<^verbatim>\<open>acc[0]\<close> as the bin-wise sum of
  two normalized superaccumulators. The hypotheses are those of C1, without
  the exactness of \<^verbatim>\<open>TwoProductFMA\<close>.
\<close>

theorem exdot_omp_thread_count:
  fixes R :: "'v::zero \<Rightarrow> real" and ulp :: real
  assumes "exdot_omp C tp T sz a b = Inr out_T" and "exdot_omp C tp 1 sz a b = Inr out_1"
    and "0 < T" and "T < 2 ^ 32" and "sz < 2 ^ 31" and "ulp \<noteq> 0"
    and "R (fst (tp 0 0)) + R (snd (tp 0 0)) = 0"
    and "\<forall>t<T. cache_exact C (lane_sum R) ulp (vcl_fed2 tp t T (int sz) a b)"
    and "\<forall>t<1. cache_exact C (lane_sum R) ulp (vcl_fed2 tp t 1 (int sz) a b)"
  shows "logical_value out_T = logical_value out_1 \<and> normalized out_1 \<and>
         (\<forall>n. Normalize out_T IMIN IMAX = Inr n \<longrightarrow> n = out_1)"
proof -
  have N: "(0::int) \<le> int sz" "int sz < 2 ^ 31" using assms(5) by simp_all
  have one: "(0::nat) < 1" "(1::nat) < 2 ^ 32" by simp_all
  from assms(1) have rT: "ExDOTFPE_run False C (\<lambda>t. vcl_fed2 tp t T (int sz) a b) T = Inr out_T"
    by (simp add: exdot_omp_def ExDOTFPE_vcl_def to_int32_size [OF assms(5)])
  from assms(2) have r1: "ExDOTFPE_run False C (\<lambda>t. vcl_fed2 tp t 1 (int sz) a b) 1 = Inr out_1"
    by (simp add: exdot_omp_def ExDOTFPE_vcl_def to_int32_size [OF assms(5)])
  note vT = ExDOTFPE_run_value [OF rT assms(3,8)]
  note v1 = ExDOTFPE_run_value [OF r1 one(1) assms(9)]
  have "real_of_int (logical_value out_T) * ulp = real_of_int (logical_value out_1) * ulp"
    unfolding vT(1) v1(1)
    by (simp only: vcl_total [of "int sz" T R tp a b, OF N assms(3,4,7)]
        vcl_total [of "int sz" 1 R tp a b, OF N one assms(7)])
  with assms(6) have eq: "logical_value out_T = logical_value out_1" by simp
  have nf: "normalized out_1" by (rule v1(3)) simp
  have "n = out_1" if "Normalize out_T IMIN IMAX = Inr n" for n
  proof -
    note v = Normalize_value [OF that vT(2)]
    show ?thesis by (rule normalized_unique) (simp_all add: v v1(2) eq nf)
  qed
  with eq nf show ?thesis by blast
qed

theorem exdot_omp_thread_count_counterexample:
  "exdot_omp direct_cache8 int_TwoProductFMA 2 16 (\<lambda>i. if i = 0 \<or> i = 8 then 2 ^ 51 else 0) (\<lambda>i. 1) =
     Inr (2 ^ 52 # replicate 38 0) \<and>
   exdot_omp direct_cache8 int_TwoProductFMA 1 16 (\<lambda>i. if i = 0 \<or> i = 8 then 2 ^ 51 else 0) (\<lambda>i. 1) =
     Inr (0 # 1 # replicate 37 0) \<and>
   exdot_omp direct_cache8 int_TwoProductFMA 2 16 (\<lambda>i. if i = 0 \<or> i = 8 then 2 ^ 51 else 0) (\<lambda>i. 1) \<noteq>
   exdot_omp direct_cache8 int_TwoProductFMA 1 16 (\<lambda>i. if i = 0 \<or> i = 8 then 2 ^ 51 else 0) (\<lambda>i. 1)"
proof -
  have a: "exdot_omp direct_cache8 int_TwoProductFMA 2 16
      (\<lambda>i. if i = 0 \<or> i = 8 then 2 ^ 51 else 0) (\<lambda>i. 1) = Inr (2 ^ 52 # replicate 38 0)"
    by code_simp
  have b: "exdot_omp direct_cache8 int_TwoProductFMA 1 16
      (\<lambda>i. if i = 0 \<or> i = 8 then 2 ^ 51 else 0) (\<lambda>i. 1) = Inr (0 # 1 # replicate 37 0)"
    by code_simp
  show ?thesis unfolding a b by simp
qed

theorem exdot_omp_thread_count_witness:
  "exdot_omp direct_cache8 int_TwoProductFMA 2 16 (\<lambda>i. if i = 0 \<or> i = 8 then 2 ^ 51 else 0) (\<lambda>i. 1) =
     Inr (2 ^ 52 # replicate 38 0) \<and>
   exdot_omp direct_cache8 int_TwoProductFMA 1 16 (\<lambda>i. if i = 0 \<or> i = 8 then 2 ^ 51 else 0) (\<lambda>i. 1) =
     Inr (0 # 1 # replicate 37 0) \<and>
   logical_value (2 ^ 52 # replicate 38 0) = logical_value (0 # 1 # replicate 37 0) \<and>
   Normalize (2 ^ 52 # replicate 38 0) IMIN IMAX = Inr (0 # 1 # replicate 37 0)"
proof -
  let ?a = "\<lambda>i::int. if i = 0 \<or> i = 8 then 2 ^ 51 else (0::int)" and ?b = "\<lambda>i::int. 1::int"
  have a: "exdot_omp direct_cache8 int_TwoProductFMA 2 16 ?a ?b = Inr (2 ^ 52 # replicate 38 0)"
    by code_simp
  have b: "exdot_omp direct_cache8 int_TwoProductFMA 1 16 ?a ?b = Inr (0 # 1 # replicate 37 0)"
    by code_simp
  have h: "(0::nat) < 2" "(2::nat) < 2 ^ 32" "(16::nat) < 2 ^ 31" "(1::real) \<noteq> 0"
    by simp_all
  have z: "real_of_int (fst (int_TwoProductFMA 0 0)) + real_of_int (snd (int_TwoProductFMA 0 0)) = 0"
    by (simp add: int_TwoProductFMA_def)
  have s0: "sum_list (map sum_list (vcl_fed2 int_TwoProductFMA 0 2 (int 16) ?a ?b)) = 2 ^ 51"
    by code_simp
  have s1: "sum_list (map sum_list (vcl_fed2 int_TwoProductFMA 1 2 (int 16) ?a ?b)) = 2 ^ 51"
    by code_simp
  have s: "sum_list (map sum_list (vcl_fed2 int_TwoProductFMA 0 1 (int 16) ?a ?b)) = 2 ^ 52"
    by code_simp
  have c: "\<forall>t<2. cache_exact direct_cache8 (lane_sum real_of_int) 1
      (vcl_fed2 int_TwoProductFMA t 2 (int 16) ?a ?b)"
  proof (intro allI impI)
    fix t :: nat assume "t < 2"
    then consider "t = 0" | "t = 1" by linarith
    then show "cache_exact direct_cache8 (lane_sum real_of_int) 1
      (vcl_fed2 int_TwoProductFMA t 2 (int 16) ?a ?b)"
    proof cases
      case 1
      show ?thesis unfolding 1 by (rule direct_cache8_exact; simp only: s0; simp)
    next
      case 2
      show ?thesis unfolding 2 by (rule direct_cache8_exact; simp only: s1; simp)
    qed
  qed
  have c1: "\<forall>t<1. cache_exact direct_cache8 (lane_sum real_of_int) 1
      (vcl_fed2 int_TwoProductFMA t 1 (int 16) ?a ?b)"
  proof (intro allI impI)
    fix t :: nat assume "t < 1"
    then have t: "t = 0" by simp
    show "cache_exact direct_cache8 (lane_sum real_of_int) 1
      (vcl_fed2 int_TwoProductFMA t 1 (int 16) ?a ?b)"
      unfolding t by (rule direct_cache8_exact; simp only: s; simp)
  qed
  have n: "Normalize (2 ^ 52 # replicate 38 0) IMIN IMAX = Inr (0 # 1 # replicate 37 0)"
    by code_simp
  from exdot_omp_thread_count [of direct_cache8 int_TwoProductFMA 2 16 ?a ?b _ _ 1 real_of_int,
      OF a b h z c c1]
  have "logical_value (2 ^ 52 # replicate 38 0) = logical_value (0 # 1 # replicate 37 0)"
    by blast
  with a b n show ?thesis by simp
qed

section \<open>The scalar and the vector build\<close>

text \<open>
  Claim C7, as amended. For the two-operand dot product and every \<open>N\<close> and \<open>T\<close>,
  the scalar build and the vector build produce superaccumulators of the same
  logical value, whose normalized forms are identical; with one thread they
  are identical. With more threads the bits differ in general (the
  counterexample below: two elements, two threads), since the two builds cut
  the input at different places.
\<close>

theorem scalar_and_vector_agree_in_value:
  fixes R :: "'v::zero \<Rightarrow> real" and ulp :: real
  assumes "exdot_omp Cv tp T sz a b = Inr out_v"
    and "exdot_omp_without_vcl Cs tp T sz a b = Inr out_s"
    and "0 < T" and "T < 2 ^ 32" and "sz < 2 ^ 31" and "ulp \<noteq> 0"
    and "R (fst (tp 0 0)) + R (snd (tp 0 0)) = 0"
    and "\<forall>t<T. cache_exact Cv (lane_sum R) ulp (vcl_fed2 tp t T (int sz) a b)"
    and "\<forall>t<T. cache_exact Cs R ulp (scalar_fed2 tp t T (int sz) a b)"
  shows "logical_value out_v = logical_value out_s \<and>
         (\<forall>n n'. Normalize out_v IMIN IMAX = Inr n \<and> Normalize out_s IMIN IMAX = Inr n' \<longrightarrow> n = n') \<and>
         (T = 1 \<longrightarrow> out_v = out_s)"
proof -
  have N: "(0::int) \<le> int sz" "int sz < 2 ^ 31" using assms(5) by simp_all
  from assms(1) have rv: "ExDOTFPE_run False Cv (\<lambda>t. vcl_fed2 tp t T (int sz) a b) T = Inr out_v"
    by (simp add: exdot_omp_def ExDOTFPE_vcl_def to_int32_size [OF assms(5)])
  from assms(2) have rs: "ExDOTFPE_run True Cs (\<lambda>t. scalar_fed2 tp t T (int sz) a b) T = Inr out_s"
    by (simp add: exdot_omp_without_vcl_def ExDOTFPE_scalar_def to_int32_size [OF assms(5)])
  note vv = ExDOTFPE_run_value [OF rv assms(3,8)]
  note vs = ExDOTFPE_run_value [OF rs assms(3,9)]
  have "real_of_int (logical_value out_v) * ulp = real_of_int (logical_value out_s) * ulp"
    unfolding vv(1) vs(1)
    by (simp only: vcl_total [of "int sz" T R tp a b, OF N assms(3,4,7)]
        scalar_total [of "int sz" T R tp a b, OF N assms(3,4)])
  with assms(6) have eq: "logical_value out_v = logical_value out_s" by simp
  have nf: "n = n'" if "Normalize out_v IMIN IMAX = Inr n \<and> Normalize out_s IMIN IMAX = Inr n'" for n n'
    using same_value_same_normal_form [OF eq vv(2) vs(2)] that by blast
  have "out_v = out_s" if "T = 1"
    by (rule normalized_unique) (simp_all add: vv(2) vs(2) vv(3) [OF that] vs(3) [OF that] eq)
  with eq nf show ?thesis by blast
qed

theorem scalar_and_vector_agree_in_value_counterexample:
  "exdot_omp direct_cache8 int_TwoProductFMA 2 2 (\<lambda>i. 2 ^ 51) (\<lambda>i. 1) =
     Inr (0 # 1 # replicate 37 0) \<and>
   exdot_omp_without_vcl direct_cache int_TwoProductFMA 2 2 (\<lambda>i. 2 ^ 51) (\<lambda>i. 1) =
     Inr (2 ^ 52 # replicate 38 0) \<and>
   exdot_omp direct_cache8 int_TwoProductFMA 2 2 (\<lambda>i. 2 ^ 51) (\<lambda>i. 1) \<noteq>
   exdot_omp_without_vcl direct_cache int_TwoProductFMA 2 2 (\<lambda>i. 2 ^ 51) (\<lambda>i. 1)"
proof -
  have a: "exdot_omp direct_cache8 int_TwoProductFMA 2 2 (\<lambda>i. 2 ^ 51) (\<lambda>i. 1) =
     Inr (0 # 1 # replicate 37 0)"
    by code_simp
  have b: "exdot_omp_without_vcl direct_cache int_TwoProductFMA 2 2 (\<lambda>i. 2 ^ 51) (\<lambda>i. 1) =
     Inr (2 ^ 52 # replicate 38 0)"
    by code_simp
  show ?thesis unfolding a b by simp
qed

theorem scalar_and_vector_agree_in_value_witness:
  "exdot_omp direct_cache8 int_TwoProductFMA 2 2 (\<lambda>i. 2 ^ 51) (\<lambda>i. 1) =
     Inr (0 # 1 # replicate 37 0) \<and>
   exdot_omp_without_vcl direct_cache int_TwoProductFMA 2 2 (\<lambda>i. 2 ^ 51) (\<lambda>i. 1) =
     Inr (2 ^ 52 # replicate 38 0) \<and>
   logical_value (0 # 1 # replicate 37 0) = logical_value (2 ^ 52 # replicate 38 0)"
proof -
  let ?a = "\<lambda>i::int. (2 ^ 51 :: int)" and ?b = "\<lambda>i::int. 1::int"
  have a: "exdot_omp direct_cache8 int_TwoProductFMA 2 2 ?a ?b = Inr (0 # 1 # replicate 37 0)"
    by code_simp
  have b: "exdot_omp_without_vcl direct_cache int_TwoProductFMA 2 2 ?a ?b =
     Inr (2 ^ 52 # replicate 38 0)"
    by code_simp
  have h: "(0::nat) < 2" "(2::nat) < 2 ^ 32" "(2::nat) < 2 ^ 31" "(1::real) \<noteq> 0"
    by simp_all
  have z: "real_of_int (fst (int_TwoProductFMA 0 0)) + real_of_int (snd (int_TwoProductFMA 0 0)) = 0"
    by (simp add: int_TwoProductFMA_def)
  have v0: "sum_list (map sum_list (vcl_fed2 int_TwoProductFMA 0 2 (int 2) ?a ?b)) = 0"
    by code_simp
  have v1: "sum_list (map sum_list (vcl_fed2 int_TwoProductFMA 1 2 (int 2) ?a ?b)) = 2 ^ 52"
    by code_simp
  have s0: "sum_list (scalar_fed2 int_TwoProductFMA 0 2 (int 2) ?a ?b) = 2 ^ 51"
    by code_simp
  have s1: "sum_list (scalar_fed2 int_TwoProductFMA 1 2 (int 2) ?a ?b) = 2 ^ 51"
    by code_simp
  have cv: "\<forall>t<2. cache_exact direct_cache8 (lane_sum real_of_int) 1
      (vcl_fed2 int_TwoProductFMA t 2 (int 2) ?a ?b)"
  proof (intro allI impI)
    fix t :: nat assume "t < 2"
    then consider "t = 0" | "t = 1" by linarith
    then show "cache_exact direct_cache8 (lane_sum real_of_int) 1
      (vcl_fed2 int_TwoProductFMA t 2 (int 2) ?a ?b)"
    proof cases
      case 1
      show ?thesis unfolding 1 by (rule direct_cache8_exact; simp only: v0; simp)
    next
      case 2
      show ?thesis unfolding 2 by (rule direct_cache8_exact; simp only: v1; simp)
    qed
  qed
  have cs: "\<forall>t<2. cache_exact direct_cache real_of_int 1
      (scalar_fed2 int_TwoProductFMA t 2 (int 2) ?a ?b)"
  proof (intro allI impI)
    fix t :: nat assume "t < 2"
    then consider "t = 0" | "t = 1" by linarith
    then show "cache_exact direct_cache real_of_int 1
      (scalar_fed2 int_TwoProductFMA t 2 (int 2) ?a ?b)"
    proof cases
      case 1
      show ?thesis unfolding 1 by (rule direct_cache_exact; simp only: s0; simp)
    next
      case 2
      show ?thesis unfolding 2 by (rule direct_cache_exact; simp only: s1; simp)
    qed
  qed
  from scalar_and_vector_agree_in_value
    [of direct_cache8 int_TwoProductFMA 2 2 ?a ?b _ direct_cache _ 1 real_of_int,
      OF a b h z cv cs]
  have "logical_value (0 # 1 # replicate 37 0) = logical_value (2 ^ 52 # replicate 38 0)"
    by blast
  with a b show ?thesis by simp
qed


section \<open>The empty input\<close>

lemma carry_sweep_zeros: "carry_sweep 0 (replicate n 0) = Inr (replicate n 0)"
proof (induction n)
  case 0
  then show ?case by simp
next
  case (Suc n)
  show ?case
  proof (cases n)
    case 0
    then show ?thesis by (simp add: add_ok_def)
  next
    case (Suc m)
    with Suc.IH show ?thesis by (simp add: add_ok_def)
  qed
qed

lemma Normalize_zeros:
  "Normalize (replicate BIN_COUNT 0) IMIN IMAX = Inr (replicate BIN_COUNT 0)"
  by (simp add: Normalize_whole carry_sweep_zeros)

lemma MergeFrom_zeros:
  "MergeFrom (replicate BIN_COUNT 0) (replicate BIN_COUNT 0) = replicate BIN_COUNT 0"
  "MergeFrom_ok (replicate BIN_COUNT 0) (replicate BIN_COUNT 0)"
proof -
  show "MergeFrom (replicate BIN_COUNT 0) (replicate BIN_COUNT 0) = replicate BIN_COUNT 0"
    by (auto simp: MergeFrom_map2 intro!: nth_equalityI)
  show "MergeFrom_ok (replicate BIN_COUNT 0) (replicate BIN_COUNT 0)"
    by (simp add: MergeFrom_ok_def list_all_iff add_ok_def IMAX_def IMIN_def BIN_COUNT_def)
qed

lemma ReductionStep_zeros:
  "without_vcl \<or> s \<le> rdy \<Longrightarrow>
   ReductionStep without_vcl s (replicate BIN_COUNT 0) (replicate BIN_COUNT 0) rdy =
     Inr (replicate BIN_COUNT 0, replicate BIN_COUNT 0)"
  by (auto simp: ReductionStep_def Normalize_zeros MergeFrom_zeros)

lemma call_zeros:
  assumes "p < T" "c < T" "without_vcl \<or> s \<le> k"
  shows "call_ReductionStep without_vcl s p c (zero_state T k) = Inr (zero_state T k)"
proof -
  have "(replicate T (replicate BIN_COUNT (0::64 word)))
      [p := replicate BIN_COUNT 0, c := replicate BIN_COUNT 0] =
      replicate T (replicate BIN_COUNT 0)"
    using assms(1,2) by (auto intro!: nth_equalityI simp: nth_list_update)
  with assms show ?thesis
    by (simp add: call_ReductionStep_def zero_state_def ReductionStep_zeros)
qed

lemma run_calls_zeros:
  assumes "\<forall>(p, c) \<in> set cs. p < T \<and> c < T" "without_vcl \<or> s \<le> k"
  shows "run_calls without_vcl s cs (zero_state T k) = Inr (zero_state T k)"
  using assms(1)
proof (induction cs)
  case Nil
  then show ?case by simp
next
  case (Cons pc cs)
  obtain p c where pc: "pc = (p, c)" by (cases pc)
  with Cons.prems have "p < T" "c < T" by simp_all
  from call_zeros [OF this assms(2)] Cons show ?case by (simp add: pc)
qed

lemma publish_all:
  "j \<le> T \<Longrightarrow> fold publish [0..<j] (zero_state T k) =
     (zero_state T k)\<lparr>ready := replicate j (Suc k) @ replicate (T - j) k\<rparr>"
proof (induction j)
  case 0
  then show ?case by (simp add: zero_state_def)
next
  case (Suc j)
  then have j: "j < T" by simp
  then have r: "replicate (T - j) k = k # replicate (T - Suc j) k"
    by (cases "T - j") (simp_all add: Suc_diff_Suc)
  have "(replicate j (Suc k) @ replicate (T - j) k)[j := Suc k] =
      replicate (Suc j) (Suc k) @ replicate (T - Suc j) k"
    unfolding r by (simp add: list_update_append replicate_append_same)
  moreover have "(replicate j (Suc k) @ replicate (T - j) k) ! j = k"
    unfolding r by (simp add: nth_append)
  ultimately show ?case
    using Suc by (simp add: publish_def)
qed

lemma Reduction_level_zeros:
  assumes "0 < s"
  shows "Reduction_level without_vcl T s (zero_state T (s - 1)) = Inr (zero_state T s)"
proof -
  have "fold publish [0..<T] (zero_state T (s - 1)) = zero_state T s"
    using publish_all [of T T "s - 1"] assms by (simp add: zero_state_def)
  moreover have "\<forall>(p, c) \<in> set (merges_at_level T s). p < T \<and> c < T"
    by (auto simp: merges_at_level_set)
  ultimately show ?thesis
    by (simp add: Reduction_level_calls run_calls_zeros)
qed

lemma run_levels_zeros:
  "0 < s \<Longrightarrow> run_levels without_vcl T [s..<s + n] (zero_state T (s - 1)) =
     Inr (zero_state T (s + n - 1))"
proof (induction n arbitrary: s)
  case 0
  then show ?case by simp
next
  case (Suc n)
  have l: "[s..<s + Suc n] = s # [Suc s..<Suc s + n]"
    by (simp add: upt_conv_Cons)
  from Suc.IH [of "Suc s"] Reduction_level_zeros [OF Suc.prems, of without_vcl T]
  show ?case unfolding l by simp
qed

lemma Reduction_zeros:
  assumes "T \<le> 2 ^ 31"
  shows "\<exists>k. Reduction without_vcl T (zero_state T 0) = Inr (zero_state T k)"
proof -
  define S where "S = length (level_numbers T 1)"
  have "level_numbers T 1 = [1..<1 + S]"
    using level_count(1) [OF assms] by (simp add: S_def del: upt_Suc)
  with run_levels_zeros [of 1 without_vcl T S]
  have "Reduction without_vcl T (zero_state T 0) = Inr (zero_state T S)"
    by (simp add: Reduction_def Reduction_levels_run [OF assms] del: upt_Suc)
  then show ?thesis by (rule exI)
qed

lemma run_threads_fix:
  "(\<And>t. t \<in> set ts \<Longrightarrow> f t st = Inr st) \<Longrightarrow> run_threads f ts st = Inr st"
  by (induction ts) simp_all

lemma ExDOTFPE_run_zeros:
  assumes "0 < T" "T \<le> 2 ^ 31" "\<And>t. t < T \<Longrightarrow> local_acc C (fed t) = replicate BIN_COUNT 0"
  shows "ExDOTFPE_run without_vcl C fed T = Inr (replicate BIN_COUNT 0)"
proof -
  have "local_sum C fed t (zero_state T 0) = Inr (zero_state T 0)" if "t < T" for t
  proof -
    have "Normalize (Flush C (foldl (Accumulate C)
        (cache_new C (acc (zero_state T 0) ! t)) (fed t))) IMIN IMAX = Inr (replicate BIN_COUNT 0)"
      using that assms(3) [OF that] by (simp add: zero_state_def local_acc_def Normalize_zeros)
    moreover have "(replicate T (replicate BIN_COUNT (0::64 word)))[t := replicate BIN_COUNT 0] =
        replicate T (replicate BIN_COUNT 0)"
      using that by (auto intro!: nth_equalityI simp: nth_list_update)
    moreover have "(replicate T (0::nat))[t := 0] = replicate T 0"
      by (rule update_zero) auto
    ultimately show ?thesis
      by (simp add: local_sum_def zero_state_def)
  qed
  then have a: "run_threads (local_sum C fed) [0..<T] (zero_state T 0) = Inr (zero_state T 0)"
    by (intro run_threads_fix) simp
  from Reduction_zeros [OF assms(2)] obtain k where
    b: "Reduction without_vcl T (zero_state T 0) = Inr (zero_state T k)" by blast
  have c: "copy_out (zero_state T k) = replicate BIN_COUNT 0"
    using assms(1) by (simp add: copy_out_eq zero_state_def)
  from a b c show ?thesis
    by (simp add: ExDOTFPE_run_def zero_state_def [symmetric])
qed

lemma loop_step8_empty: "r \<le> l \<Longrightarrow> loop_step8 l r = []"
  by (subst loop_step8.simps) simp

text \<open>
  Claim C9. For a vector of length 0 and any two accessors, every thread of the
  team has \<open>l = 0\<close> and \<open>r = - 1\<close>, so no batch of the main loop runs and the guard
  of the tail \<^verbatim>\<open>r != N - 1\<close> is false; nothing is fed to the cache, and provided
  that flushing a cache that took no value leaves the zeroed superaccumulator
  as it is, \<^verbatim>\<open>exdot_omp\<close> returns without fault and every bin of the output is 0.
\<close>

theorem exdot_omp_of_nothing:
  fixes a b :: "int \<Rightarrow> 'v::zero"
  assumes "0 < T" and "T \<le> 2 ^ 31" and "local_acc C [] = replicate BIN_COUNT 0"
  shows "exdot_omp C tp T 0 a b = Inr (replicate BIN_COUNT 0) \<and>
         (\<forall>t<T. vcl_l t T 0 = 0 \<and> vcl_r t T 0 = - 1 \<and> vcl_batches t T 0 = [] \<and>
            vcl_tail t T 0 = None \<and> vcl_fed2 tp t T 0 a b = [])"
proof -
  have T32: "T < 2 ^ 32" using assms(2) by simp
  have h: "(0::int) \<le> 0" "(0::int) < 2 ^ 31" by simp_all
  have parts: "vcl_l t T 0 = 0 \<and> vcl_r t T 0 = - 1 \<and> vcl_batches t T 0 = [] \<and>
            vcl_tail t T 0 = None \<and> vcl_fed2 tp t T 0 a b = []" if t: "t < T" for t
  proof -
    from t have le: "t \<le> T" by simp
    have l: "vcl_l t T 0 = 0"
      by (simp add: vcl_l_eq [OF h assms(1) le] quot8_def quot_def)
    have r: "vcl_r t T 0 = - 1"
      by (simp add: vcl_r_eq [OF h assms(1) T32 t] quot8_def quot_def)
    have b: "vcl_batches t T 0 = []"
      by (simp add: vcl_batches_def l r loop_step8_empty)
    have tl: "vcl_tail t T 0 = None"
      by (simp add: vcl_tail_eq [OF h assms(1) T32 t])
    from l r b tl show ?thesis by (simp add: vcl_fed2_def)
  qed
  then have "local_acc C (vcl_fed2 tp t T 0 a b) = replicate BIN_COUNT 0" if "t < T" for t
    using that assms(3) by simp
  from ExDOTFPE_run_zeros [OF assms(1,2) this]
  have "exdot_omp C tp T 0 a b = Inr (replicate BIN_COUNT 0)"
    by (simp add: exdot_omp_def ExDOTFPE_vcl_def to_int32_def)
  with parts show ?thesis by blast
qed

theorem exdot_omp_of_nothing_witness:
  "(0::nat) < 3 \<and> (3::nat) \<le> 2 ^ 31 \<and> local_acc direct_cache8 [] = replicate BIN_COUNT 0 \<and>
   exdot_omp direct_cache8 int_TwoProductFMA 3 0 (\<lambda>i. 7) (\<lambda>i. 5) = Inr (replicate BIN_COUNT 0) \<and>
   vcl_l 2 3 0 = 0 \<and> vcl_r 2 3 0 = - 1 \<and> vcl_tail 2 3 0 = None"
proof -
  have h: "(0::nat) < 3" "(3::nat) \<le> 2 ^ 31" "local_acc direct_cache8 [] = replicate BIN_COUNT 0"
    by (simp_all add: local_acc_def direct_cache8_def)
  from exdot_omp_of_nothing [OF h, of int_TwoProductFMA "\<lambda>i. 7" "\<lambda>i. 5"]
  have "exdot_omp direct_cache8 int_TwoProductFMA 3 0 (\<lambda>i. 7) (\<lambda>i. 5) = Inr (replicate BIN_COUNT 0)"
    and "\<forall>t<3. vcl_l t 3 0 = 0 \<and> vcl_r t 3 0 = - 1 \<and> vcl_batches t 3 0 = [] \<and>
            vcl_tail t 3 0 = None \<and>
            vcl_fed2 int_TwoProductFMA t 3 0 (\<lambda>i. 7) (\<lambda>i. 5) = []"
    by blast+
  with h show ?thesis by simp
qed


section \<open>The three-operand kernel\<close>

lemma batch_lanes3:
  "mul_add0 mul_add (mul_add0 mul_add (make_vcl_vec8d a i) (make_vcl_vec8d b i))
      (make_vcl_vec8d c i) =
   map (\<lambda>j. mul_add (mul_add (a j) (b j) 0) (c j) 0) (map (\<lambda>k. i + int k) [0..<8])"
  unfolding mul_add0_def make_vcl_vec8d_def
  by (simp only: map2_map_map map_map comp_def)

lemma map_if_below:
  "map (\<lambda>k. if int k < n then u k else z) [0..<j] =
     map u [0..<min (nat n) j] @ replicate (j - nat n) z"
proof (induction j)
  case 0
  then show ?case by simp
next
  case (Suc j)
  show ?case
  proof (cases "int j < n")
    case True
    then have "min (nat n) (Suc j) = Suc j" "min (nat n) j = j" "Suc j - nat n = 0" "j - nat n = 0"
      by simp_all
    with Suc True show ?thesis by simp
  next
    case False
    then have "min (nat n) (Suc j) = nat n" "min (nat n) j = nat n"
      "Suc j - nat n = Suc (j - nat n)" by simp_all
    with Suc False show ?thesis by (simp add: replicate_append_same)
  qed
qed

lemma tail_lanes3:
  fixes a b c :: "int \<Rightarrow> 'v::zero"
  shows "mul_add0 mul_add
      (mul_add0 mul_add (make_vcl_vec8d_partial a r n) (make_vcl_vec8d_partial b r n))
      (make_vcl_vec8d_partial c r n) =
   map (\<lambda>j. mul_add (mul_add (a j) (b j) 0) (c j) 0)
     (map (\<lambda>k. r + int k) (filter (\<lambda>k. int k < n) [0..<8])) @
   replicate (8 - nat n) (mul_add (mul_add 0 0 0) 0 0)"
proof -
  let ?f = "\<lambda>j. mul_add (mul_add (a j) (b j) 0) (c j) 0"
  let ?pa = "\<lambda>k. if int k < n then a (r + int k) else 0"
  let ?pb = "\<lambda>k. if int k < n then b (r + int k) else 0"
  let ?pc = "\<lambda>k. if int k < n then c (r + int k) else 0"
  have "mul_add0 mul_add
      (mul_add0 mul_add (make_vcl_vec8d_partial a r n) (make_vcl_vec8d_partial b r n))
      (make_vcl_vec8d_partial c r n) =
      map (\<lambda>k. mul_add (mul_add (?pa k) (?pb k) 0) (?pc k) 0) [0..<8]"
    unfolding mul_add0_def make_vcl_vec8d_partial_def
    by (simp only: map2_map_map map_map comp_def)
  also have "\<dots> = map (\<lambda>k. if int k < n then ?f (r + int k) else mul_add (mul_add 0 0 0) 0 0) [0..<8]"
    by (rule map_cong [OF refl]) simp
  also have "\<dots> = map (\<lambda>k. ?f (r + int k)) [0..<min (nat n) 8] @
      replicate (8 - nat n) (mul_add (mul_add 0 0 0) 0 0)"
    by (rule map_if_below)
  finally show ?thesis by (simp only: filter_below map_map comp_def)
qed

lemma vcl_fed3_lanes:
  fixes a b c :: "int \<Rightarrow> 'v::zero"
  shows "concat (vcl_fed3 mul_add t T N a b c) =
    map (\<lambda>j. mul_add (mul_add (a j) (b j) 0) (c j) 0) (vcl_indices t T N) @
    (case vcl_tail t T N of None \<Rightarrow> []
     | Some (r, n) \<Rightarrow> replicate (8 - nat n) (mul_add (mul_add 0 0 0) 0 0))"
proof -
  let ?f = "\<lambda>j. mul_add (mul_add (a j) (b j) 0) (c j) 0"
  have main: "concat (map (\<lambda>i. mul_add0 mul_add
            (mul_add0 mul_add (make_vcl_vec8d a i) (make_vcl_vec8d b i)) (make_vcl_vec8d c i)) bs) =
     map ?f (concat (map (\<lambda>i. map (\<lambda>k. i + int k) [0..<8]) bs))" for bs
    by (induction bs) (simp_all only: list.map concat.simps map_append batch_lanes3)
  show ?thesis
  proof (cases "vcl_tail t T N")
    case None
    then show ?thesis
      by (simp add: vcl_fed3_def vcl_indices_def main del: upt_Suc)
  next
    case (Some rn)
    obtain r n where rn: "rn = (r, n)" by (cases rn)
    from Some rn show ?thesis
      by (simp add: vcl_fed3_def vcl_indices_def main tail_lanes3 del: upt_Suc)
  qed
qed

lemma pad_count: "(if N mod 8 = 0 then 0 else 8 - nat (N mod 8)) = nat ((- N) mod (8::int))"
proof -
  have "(- N) mod 8 = (if N mod 8 = 0 then 0 else 8 - N mod 8)"
    by (simp add: zmod_zminus1_eq_if)
  moreover have "nat (8 - N mod 8) = 8 - nat (N mod 8)"
    by (simp add: nat_diff_distrib')
  ultimately show ?thesis by simp
qed

lemma concat_map_concat: "concat (map concat xss) = concat (concat xss)"
  by (induction xss) simp_all

lemma vcl_fed3_all:
  fixes a b c :: "int \<Rightarrow> 'v::zero"
  assumes "0 \<le> N" "N < 2 ^ 31" "0 < T" "T < 2 ^ 32"
  shows "concat (concat (map (\<lambda>t. vcl_fed3 mul_add t T N a b c) [0..<T])) =
    map (\<lambda>j. mul_add (mul_add (a j) (b j) 0) (c j) 0) [0..N - 1] @
    replicate (nat ((- N) mod 8)) (mul_add (mul_add 0 0 0) 0 0)"
proof -
  let ?f = "\<lambda>j. mul_add (mul_add (a j) (b j) 0) (c j) 0"
  let ?z = "mul_add (mul_add 0 0 0) 0 0"
  let ?pad = "replicate (nat ((- N) mod 8)) ?z"
  obtain T' where T': "T = Suc T'" using assms(3) by (cases T) simp_all
  have up: "[0..<T] = [0..<T'] @ [T']" by (simp add: T')
  have inner: "concat (vcl_fed3 mul_add t T N a b c) = map ?f (vcl_indices t T N)"
    if "t < T'" for t
  proof -
    from that have "t < T" "Suc t \<noteq> T" by (simp_all add: T')
    with vcl_tail_eq [OF assms, of t] have "vcl_tail t T N = None" by simp
    then show ?thesis by (simp add: vcl_fed3_lanes)
  qed
  have last: "concat (vcl_fed3 mul_add T' T N a b c) = map ?f (vcl_indices T' T N) @ ?pad"
  proof -
    have "T' < T" "Suc T' = T" by (simp_all add: T')
    with vcl_tail_eq [OF assms, of T']
    have tl: "vcl_tail T' T N = (if N mod 8 \<noteq> 0 then Some (8 * (N div 8), N mod 8) else None)"
      by simp
    show ?thesis
      unfolding vcl_fed3_lanes tl pad_count [symmetric] by simp
  qed
  have "concat (concat (map (\<lambda>t. vcl_fed3 mul_add t T N a b c) [0..<T])) =
      concat (map (\<lambda>t. concat (vcl_fed3 mul_add t T N a b c)) [0..<T])"
    by (simp only: concat_map_concat [symmetric] map_map comp_def)
  also have "\<dots> = concat (map (\<lambda>t. concat (vcl_fed3 mul_add t T N a b c)) [0..<T']) @
      concat (vcl_fed3 mul_add T' T N a b c)"
    by (simp only: up map_append concat_append list.map concat.simps append_Nil2)
  also have "map (\<lambda>t. concat (vcl_fed3 mul_add t T N a b c)) [0..<T'] =
      map (\<lambda>t. map ?f (vcl_indices t T N)) [0..<T']"
    by (rule map_cong [OF refl]) (simp add: inner)
  also have "concat (map (\<lambda>t. map ?f (vcl_indices t T N)) [0..<T']) @
      concat (vcl_fed3 mul_add T' T N a b c) =
      concat (map (\<lambda>t. map ?f (vcl_indices t T N)) [0..<T]) @ ?pad"
    by (simp only: up last map_append concat_append list.map concat.simps append_Nil2 append_assoc)
  also have "concat (map (\<lambda>t. map ?f (vcl_indices t T N)) [0..<T]) =
      map ?f (concat (map (\<lambda>t. vcl_indices t T N) [0..<T]))"
    by (simp only: map_concat map_map comp_def)
  finally show ?thesis by (simp only: vcl_concat [OF assms])
qed

lemma scalar_fed3_all:
  assumes "0 \<le> N" "N < 2 ^ 31" "0 < T" "T < 2 ^ 32"
  shows "concat (map (\<lambda>t. scalar_fed3 fmul t T N a b c) [0..<T]) =
    map (\<lambda>j. fmul (fmul (a j) (b j)) (c j)) [0..N - 1]"
proof -
  let ?f = "\<lambda>j. fmul (fmul (a j) (b j)) (c j)"
  have "concat (map (\<lambda>t. scalar_fed3 fmul t T N a b c) [0..<T]) =
      concat (map (\<lambda>t. map ?f (scalar_indices t T N)) [0..<T])"
    by (simp add: scalar_fed3_def get_element_def)
  also have "\<dots> = map ?f (concat (map (\<lambda>t. scalar_indices t T N) [0..<T]))"
    by (simp only: map_concat map_map comp_def)
  finally show ?thesis by (simp only: scalar_concat [OF assms])
qed

lemma lane_sum_concat:
  "sum_list (map (lane_sum R) xss) = sum_list (map R (concat xss))"
  by (induction xss) (simp_all add: lane_sum_def)

lemma vcl3_total:
  fixes R :: "'v::zero \<Rightarrow> real"
  assumes "0 \<le> N" "N < 2 ^ 31" "0 < T" "T < 2 ^ 32"
    and "R (mul_add (mul_add 0 0 0) 0 0) = 0"
  shows "(\<Sum>t<T. sum_list (map (lane_sum R) (vcl_fed3 mul_add t T N a b c))) =
     (\<Sum>i = 0..<N. R (mul_add (mul_add (a i) (b i) 0) (c i) 0))"
proof -
  let ?f = "\<lambda>j. mul_add (mul_add (a j) (b j) 0) (c j) 0"
  have "(\<Sum>t<T. sum_list (map (lane_sum R) (vcl_fed3 mul_add t T N a b c))) =
      (\<Sum>t<T. sum_list (map R (concat (vcl_fed3 mul_add t T N a b c))))"
    by (simp only: lane_sum_concat)
  also have "\<dots> = sum_list (map R (concat (map (\<lambda>t. concat (vcl_fed3 mul_add t T N a b c)) [0..<T])))"
    by (rule sum_list_threads)
  also have "concat (map (\<lambda>t. concat (vcl_fed3 mul_add t T N a b c)) [0..<T]) =
      concat (concat (map (\<lambda>t. vcl_fed3 mul_add t T N a b c) [0..<T]))"
    by (simp only: concat_map_concat [symmetric] map_map comp_def)
  also have "sum_list (map R \<dots>) = sum_list (map (\<lambda>i. R (?f i)) [0..N - 1])"
    unfolding vcl_fed3_all [OF assms(1-4)]
    by (simp add: assms(5) comp_def sum_list_replicate)
  finally show ?thesis by (simp only: sum_list_upto)
qed

lemma scalar3_total:
  fixes R :: "'v \<Rightarrow> real"
  assumes "0 \<le> N" "N < 2 ^ 31" "0 < T" "T < 2 ^ 32"
  shows "(\<Sum>t<T. sum_list (map R (scalar_fed3 fmul t T N a b c))) =
     (\<Sum>i = 0..<N. R (fmul (fmul (a i) (b i)) (c i)))"
proof -
  have "(\<Sum>t<T. sum_list (map R (scalar_fed3 fmul t T N a b c))) =
      sum_list (map R (concat (map (\<lambda>t. scalar_fed3 fmul t T N a b c) [0..<T])))"
    by (rule sum_list_threads)
  also have "\<dots> = sum_list (map (\<lambda>i. R (fmul (fmul (a i) (b i)) (c i))) [0..N - 1])"
    unfolding scalar_fed3_all [OF assms] by (simp add: comp_def)
  finally show ?thesis by (simp only: sum_list_upto)
qed

lemma exdot_omp3_value:
  fixes R :: "'v::zero \<Rightarrow> real" and ulp :: real
  assumes "0 < T" and "T < 2 ^ 32" and "sz < 2 ^ 31"
    and e: "exdot_omp3 C mul_add T sz a b c = Inr h_superacc"
    and z: "R (mul_add (mul_add 0 0 0) 0 0) = 0"
    and ex: "\<forall>t<T. cache_exact C (lane_sum R) ulp (vcl_fed3 mul_add t T (int sz) a b c)"
  shows "of_int (logical_value h_superacc) * ulp =
           (\<Sum>i = 0..<int sz. R (mul_add (mul_add (a i) (b i) 0) (c i) 0)) \<and>
         length h_superacc = BIN_COUNT"
proof -
  have N: "(0::int) \<le> int sz" "int sz < 2 ^ 31" using assms(3) by simp_all
  from e have r: "ExDOTFPE_run False C (\<lambda>t. vcl_fed3 mul_add t T (int sz) a b c) T = Inr h_superacc"
    by (simp add: exdot_omp3_def ExDOTFPE3_vcl_def to_int32_size [OF assms(3)])
  note v = ExDOTFPE_run_value [OF r assms(1) ex]
  note tot = vcl3_total [of "int sz" T R mul_add a b c, OF N assms(1,2) z]
  from v(1,2) tot show ?thesis by simp
qed

lemma exdot_omp3_without_vcl_value:
  fixes R :: "'v \<Rightarrow> real" and ulp :: real
  assumes "0 < T" and "T < 2 ^ 32" and "sz < 2 ^ 31"
    and e: "exdot_omp3_without_vcl C fmul T sz a b c = Inr h_superacc"
    and ex: "\<forall>t<T. cache_exact C R ulp (scalar_fed3 fmul t T (int sz) a b c)"
  shows "of_int (logical_value h_superacc) * ulp =
           (\<Sum>i = 0..<int sz. R (fmul (fmul (a i) (b i)) (c i))) \<and>
         length h_superacc = BIN_COUNT"
proof -
  have N: "(0::int) \<le> int sz" "int sz < 2 ^ 31" using assms(3) by simp_all
  from e have r: "ExDOTFPE_run True C (\<lambda>t. scalar_fed3 fmul t T (int sz) a b c) T = Inr h_superacc"
    by (simp add: exdot_omp3_without_vcl_def ExDOTFPE3_scalar_def to_int32_size [OF assms(3)])
  note v = ExDOTFPE_run_value [OF r assms(1) ex]
  note tot = scalar3_total [of "int sz" T R fmul a b c, OF N assms(1,2)]
  from v(1,2) tot show ?thesis by simp
qed

text \<open>
  Claim C3. In the three-operand \<^verbatim>\<open>exdot_omp\<close> one value is accumulated for each
  element: the lanes handed to the cache by the threads, in order, are
  \<open>mul_add (mul_add a\<^sub>i b\<^sub>i 0) c\<^sub>i 0\<close> for \<open>i = 0, \<dots>, N - 1\<close> (followed by the lanes of
  the padding of the last batch, computed from zeros), and in the scalar build
  the products \<open>(a\<^sub>i * b\<^sub>i) * c\<^sub>i\<close> of two rounded multiplications; no error term
  is accumulated. Hence, when the cache loses nothing of what it takes and the
  padding counts as 0, the superaccumulator written stands for the sum of these
  twice-rounded products, which is not the sum of the exact triple products
  when a multiplication rounds.
\<close>

theorem exdot_omp3_twice_rounded:
  fixes R :: "'v::zero \<Rightarrow> real" and ulp :: real
  assumes "0 < T" and "T < 2 ^ 32" and "sz < 2 ^ 31"
  shows "concat (concat (map (\<lambda>t. vcl_fed3 mul_add t T (int sz) a b c) [0..<T])) =
           map (\<lambda>i. mul_add (mul_add (a i) (b i) 0) (c i) 0) [0..int sz - 1] @
           replicate (nat ((- int sz) mod 8)) (mul_add (mul_add 0 0 0) 0 0) \<and>
         concat (map (\<lambda>t. scalar_fed3 fmul t T (int sz) a b c) [0..<T]) =
           map (\<lambda>i. fmul (fmul (a i) (b i)) (c i)) [0..int sz - 1] \<and>
         (exdot_omp3 C mul_add T sz a b c = Inr h_superacc \<and>
          R (mul_add (mul_add 0 0 0) 0 0) = 0 \<and>
          (\<forall>t<T. cache_exact C (lane_sum R) ulp (vcl_fed3 mul_add t T (int sz) a b c)) \<longrightarrow>
          of_int (logical_value h_superacc) * ulp =
            (\<Sum>i = 0..<int sz. R (mul_add (mul_add (a i) (b i) 0) (c i) 0)) \<and>
          length h_superacc = BIN_COUNT) \<and>
         (exdot_omp3_without_vcl C' fmul T sz a b c = Inr h_superacc' \<and>
          (\<forall>t<T. cache_exact C' R ulp (scalar_fed3 fmul t T (int sz) a b c)) \<longrightarrow>
          of_int (logical_value h_superacc') * ulp =
            (\<Sum>i = 0..<int sz. R (fmul (fmul (a i) (b i)) (c i))) \<and>
          length h_superacc' = BIN_COUNT)"
proof -
  have N: "(0::int) \<le> int sz" "int sz < 2 ^ 31" using assms(3) by simp_all
  note p1 = vcl_fed3_all [of "int sz" T mul_add a b c, OF N assms(1,2)]
  note p2 = scalar_fed3_all [of "int sz" T fmul a b c, OF N assms(1,2)]
  note p3 = exdot_omp3_value [of T sz C mul_add a b c h_superacc R ulp, OF assms]
  note p4 = exdot_omp3_without_vcl_value [of T sz C' fmul a b c h_superacc' R ulp, OF assms]
  show ?thesis
    by (intro conjI impI; (elim conjE)?) (rule p1 p2 conjunct1 [OF p3] conjunct2 [OF p3]
        conjunct1 [OF p4] conjunct2 [OF p4]; assumption)+
qed

theorem exdot_omp3_twice_rounded_witness:
  "exdot_omp3 direct_cache8 trunc4_mul_add 2 11 (\<lambda>i. i + 3) (\<lambda>i. 3) (\<lambda>i. 3) =
     Inr (744 # replicate 38 0) \<and>
   exdot_omp3_without_vcl direct_cache trunc4_mul 2 11 (\<lambda>i. i + 3) (\<lambda>i. 3) (\<lambda>i. 3) =
     Inr (744 # replicate 38 0) \<and>
   real_of_int (logical_value (744 # replicate 38 0)) * 1 =
     (\<Sum>i = 0..<int 11. real_of_int (trunc4_mul_add (trunc4_mul_add (i + 3) 3 0) 3 0)) \<and>
   real_of_int (logical_value (744 # replicate 38 0)) * 1 =
     (\<Sum>i = 0..<int 11. real_of_int (trunc4_mul (trunc4_mul (i + 3) 3) 3)) \<and>
   concat (concat (map (\<lambda>t. vcl_fed3 trunc4_mul_add t 2 (int 11) (\<lambda>i. i + 3) (\<lambda>i. 3) (\<lambda>i. 3))
       [0..<2])) =
     [24, 36, 36, 48, 60, 72, 72, 84, 96, 108, 108, 0, 0, 0, 0, 0] \<and>
   concat (map (\<lambda>t. scalar_fed3 trunc4_mul t 2 (int 11) (\<lambda>i. i + 3) (\<lambda>i. 3) (\<lambda>i. 3)) [0..<2]) =
     [24, 36, 36, 48, 60, 72, 72, 84, 96, 108, 108] \<and>
   sum_list (map (\<lambda>i. (i + 3) * 3 * 3) [0..10]) = (792 :: int)"
proof -
  let ?a = "\<lambda>i::int. i + 3" and ?b = "\<lambda>i::int. 3::int"
  have e: "exdot_omp3 direct_cache8 trunc4_mul_add 2 11 ?a ?b ?b = Inr (744 # replicate 38 0)"
    by code_simp
  have e': "exdot_omp3_without_vcl direct_cache trunc4_mul 2 11 ?a ?b ?b =
      Inr (744 # replicate 38 0)"
    by code_simp
  have h: "(0::nat) < 2" "(2::nat) < 2 ^ 32" "(11::nat) < 2 ^ 31"
    by simp_all
  have z: "real_of_int (trunc4_mul_add (trunc4_mul_add 0 0 0) 0 0) = 0"
    by (simp add: trunc4_mul_add_def)
  have s0: "sum_list (map sum_list (vcl_fed3 trunc4_mul_add 0 2 (int 11) ?a ?b ?b)) = 0"
    by code_simp
  have s1: "sum_list (map sum_list (vcl_fed3 trunc4_mul_add 1 2 (int 11) ?a ?b ?b)) = 744"
    by code_simp
  have s0': "sum_list (scalar_fed3 trunc4_mul 0 2 (int 11) ?a ?b ?b) = 204"
    by code_simp
  have s1': "sum_list (scalar_fed3 trunc4_mul 1 2 (int 11) ?a ?b ?b) = 540"
    by code_simp
  have c: "\<forall>t<2. cache_exact direct_cache8 (lane_sum real_of_int) 1
      (vcl_fed3 trunc4_mul_add t 2 (int 11) ?a ?b ?b)"
  proof (intro allI impI)
    fix t :: nat assume "t < 2"
    then consider "t = 0" | "t = 1" by linarith
    then show "cache_exact direct_cache8 (lane_sum real_of_int) 1
      (vcl_fed3 trunc4_mul_add t 2 (int 11) ?a ?b ?b)"
    proof cases
      case 1
      show ?thesis unfolding 1 by (rule direct_cache8_exact; simp only: s0; simp)
    next
      case 2
      show ?thesis unfolding 2 by (rule direct_cache8_exact; simp only: s1; simp)
    qed
  qed
  have c': "\<forall>t<2. cache_exact direct_cache real_of_int 1
      (scalar_fed3 trunc4_mul t 2 (int 11) ?a ?b ?b)"
  proof (intro allI impI)
    fix t :: nat assume "t < 2"
    then consider "t = 0" | "t = 1" by linarith
    then show "cache_exact direct_cache real_of_int 1
      (scalar_fed3 trunc4_mul t 2 (int 11) ?a ?b ?b)"
    proof cases
      case 1
      show ?thesis unfolding 1 by (rule direct_cache_exact; simp only: s0'; simp)
    next
      case 2
      show ?thesis unfolding 2 by (rule direct_cache_exact; simp only: s1'; simp)
    qed
  qed
  have l: "concat (concat (map (\<lambda>t. vcl_fed3 trunc4_mul_add t 2 (int 11) ?a ?b ?b) [0..<2])) =
     [24, 36, 36, 48, 60, 72, 72, 84, 96, 108, 108, 0, 0, 0, 0, 0]"
    by code_simp
  have l': "concat (map (\<lambda>t. scalar_fed3 trunc4_mul t 2 (int 11) ?a ?b ?b) [0..<2]) =
     [24, 36, 36, 48, 60, 72, 72, 84, 96, 108, 108]"
    by code_simp
  have x: "sum_list (map (\<lambda>i. (i + 3) * 3 * 3) [0..10]) = (792 :: int)"
    by code_simp
  note t = exdot_omp3_twice_rounded [of 2 11 trunc4_mul_add ?a ?b ?b trunc4_mul
      direct_cache8 "744 # replicate 38 0" real_of_int 1 direct_cache
      "744 # replicate 38 0", OF h]
  from t e z c have v: "real_of_int (logical_value (744 # replicate 38 0)) * 1 =
     (\<Sum>i = 0..<int 11. real_of_int (trunc4_mul_add (trunc4_mul_add (i + 3) 3 0) 3 0))"
    by blast
  from t e' c' have v': "real_of_int (logical_value (744 # replicate 38 0)) * 1 =
     (\<Sum>i = 0..<int 11. real_of_int (trunc4_mul (trunc4_mul (i + 3) 3) 3))"
    by blast
  from e e' v v' l l' x show ?thesis by (intro conjI)
qed


section \<open>Every thread is merged once\<close>

lemma child_once:
  assumes "0 < t" and "t < T" and "T \<le> 2 ^ 31"
  shows "\<exists>s p. filter (\<lambda>(s', p', c). c = t) (merge_schedule T) = [(s, p, t)] \<and>
           0 < s \<and> s \<in> set (level_numbers T 1) \<and> 2 ^ (s - 1) < T \<and>
           2 ^ (s - 1) dvd t \<and> \<not> 2 ^ s dvd t \<and>
           p + 2 ^ (s - 1) = t \<and> p mod 2 ^ s = 0 \<and> t = p OR 2 ^ (s - 1) \<and> p < T"
proof -
  from low_bit_exists [OF assms(1)] obtain s where
    s: "0 < s" and d: "2 ^ (s - 1) dvd t" and nd: "\<not> 2 ^ s dvd t"
    by blast
  define h :: nat where "h = 2 ^ (s - 1)"
  define p where "p = t - h"
  have two: "(2::nat) ^ s = 2 * h"
    using s by (cases s) (simp_all add: h_def)
  from d assms(1) have hle: "h \<le> t" unfolding h_def by (intro dvd_imp_le) simp_all
  then have pt: "p + h = t" by (simp add: p_def)
  from d obtain m where m: "t = h * m" unfolding h_def by (auto elim: dvdE)
  have "odd m"
  proof
    assume "even m"
    then obtain j where "m = 2 * j" by (auto elim: evenE)
    with m have "t = (2 * h) * j" by simp
    with nd two show False by simp
  qed
  then obtain j where j: "m = 2 * j + 1" by (auto elim: oddE)
  have "p = (2 * h) * j" using m j by (simp add: p_def algebra_simps)
  then have pm: "p mod 2 ^ s = 0" by (simp add: two)
  have hT: "h < T" using hle assms(2) by simp
  have pT: "p < T" using pt assms(2) by simp
  have "(2::nat) ^ (s - 1) < 2 ^ 31" using hT assms(3) by (simp add: h_def)
  then have "s - 1 < 31" by (simp only: power_strict_increasing_iff) 
  with s have s32: "s < 32" by simp
  have lev: "s \<in> set (level_numbers T 1)"
    using s s32 hT by (simp add: level_numbers_set h_def)
  have por: "p OR 2 ^ (s - 1) = t"
    using or_low_bit [OF pm s] pt by (simp add: h_def)
  have one: "filter (\<lambda>q. q mod 2 ^ s = 0 \<and> q + 2 ^ (s - 1) < T \<and> q + 2 ^ (s - 1) = t) [0..<T] = [p]"
  proof (rule distinct_singleton)
    show "distinct (filter (\<lambda>q. q mod 2 ^ s = 0 \<and> q + 2 ^ (s - 1) < T \<and> q + 2 ^ (s - 1) = t) [0..<T])"
      by simp
    show "set (filter (\<lambda>q. q mod 2 ^ s = 0 \<and> q + 2 ^ (s - 1) < T \<and> q + 2 ^ (s - 1) = t) [0..<T]) = {p}"
      using pm pt pT assms(2) by (auto simp: h_def)
  qed
  have none: "filter (\<lambda>q. q mod 2 ^ s' = 0 \<and> q + 2 ^ (s' - 1) < T \<and> q + 2 ^ (s' - 1) = t) [0..<T] = []"
    if "0 < s'" "s' \<noteq> s" for s'
  proof -
    have "\<not> (q mod 2 ^ s' = 0 \<and> q + 2 ^ (s' - 1) = t)" for q
    proof
      assume a: "q mod 2 ^ s' = 0 \<and> q + 2 ^ (s' - 1) = t"
      with pt have "p + 2 ^ (s - 1) = q + 2 ^ (s' - 1)" by (simp add: h_def)
      from low_bit_unique [OF this pm _ s that(1)] a that(2) show False by simp
    qed
    then show ?thesis by (simp add: filter_empty_conv)
  qed
  have lv: "\<forall>s' \<in> set (level_numbers T 1). 0 < s'"
    using level_numbers_distinct [of T 1] by auto
  have "filter (\<lambda>(s', p', c). c = t) (merge_schedule T) =
      concat (map (\<lambda>s'. filter (\<lambda>(s'', p', c). c = t)
         (map (\<lambda>(tid, tid2). (s', tid, tid2)) (merges_at_level T s'))) (level_numbers T 1))"
    by (simp add: merge_schedule_def filter_concat comp_def)
  also have "\<dots> = concat (map (\<lambda>s'. if s' = s then [(s, p, t)] else []) (level_numbers T 1))"
  proof (rule arg_cong [where f = concat], rule map_cong [OF refl])
    fix s' assume "s' \<in> set (level_numbers T 1)"
    with lv have pos: "0 < s'" by simp
    show "filter (\<lambda>(s'', p', c). c = t)
         (map (\<lambda>(tid, tid2). (s', tid, tid2)) (merges_at_level T s')) =
        (if s' = s then [(s, p, t)] else [])"
      unfolding filter_level_child [OF pos] using one none [OF pos] by auto
  qed
  also have "\<dots> = [(s, p, t)]"
    using level_numbers_distinct [of T 1] lev by (intro concat_pick) simp_all
  finally have "filter (\<lambda>(s', p', c). c = t) (merge_schedule T) = [(s, p, t)]" .
  with s lev hT d nd pt pm por pT show ?thesis
    unfolding h_def by (intro exI [of _ s] exI [of _ p]) simp
qed

lemma child_level_unique:
  fixes p q t T :: nat
  assumes s: "0 < s" and pm: "p mod 2 ^ s = 0" and pt: "p + 2 ^ (s - 1) = t" and tT: "t < T"
    and s': "0 < s'"
  shows "(q mod 2 ^ s' = 0 \<and> q OR 2 ^ (s' - 1) < T \<and> q OR 2 ^ (s' - 1) = t) \<longleftrightarrow>
         (s' = s \<and> q = p)"
proof
  assume a: "q mod 2 ^ s' = 0 \<and> q OR 2 ^ (s' - 1) < T \<and> q OR 2 ^ (s' - 1) = t"
  then have "q + 2 ^ (s' - 1) = t" using or_low_bit [of q s'] s' by simp
  with pt have "p + 2 ^ (s - 1) = q + 2 ^ (s' - 1)" by simp
  from low_bit_unique [OF this pm _ s s'] a show "s' = s \<and> q = p" by simp
next
  assume "s' = s \<and> q = p"
  then show "q mod 2 ^ s' = 0 \<and> q OR 2 ^ (s' - 1) < T \<and> q OR 2 ^ (s' - 1) = t"
    using or_low_bit [OF pm s] pm pt tT by simp
qed

lemma merge_step_unfold:
  "merge_step without_vcl T s q st =
     (if q mod 2 ^ s = 0 \<and> q OR 2 ^ (s - 1) < T
      then call_ReductionStep without_vcl s q (q OR 2 ^ (s - 1)) st else Inr st)"
  by (simp add: merge_step_def Let_def)

lemma Reduction_run_levels:
  "T \<le> 2 ^ 31 \<Longrightarrow>
   Reduction without_vcl T st = run_levels without_vcl T (level_numbers T 1) st"
  unfolding Reduction_def by (rule Reduction_levels_run)

lemma level_adds_child:
  fixes p t T :: nat
  assumes r: "Reduction_level without_vcl T s st = Inr st'" and sh: "acc_shape T st"
    and s: "0 < s" and pm: "p mod 2 ^ s = 0" and pt: "p + 2 ^ (s - 1) = t" and tT: "t < T"
    and nd: "\<not> 2 ^ s dvd t"
  shows "acc_value st' p = acc_value st p + acc_value st t" and "acc_value st' t = acc_value st t"
proof -
  from pt tT have pT: "p < T" by simp
  from Reduction_level_values(3) [OF r s sh pT] pm pt tT
  show "acc_value st' p = acc_value st p + acc_value st t" by simp
  from nd have "t mod 2 ^ s \<noteq> 0" by (simp add: dvd_eq_mod_eq_0)
  with Reduction_level_values(3) [OF r s sh tT]
  show "acc_value st' t = acc_value st t" by simp
qed

text \<open>
  Claim C10. For every thread count \<open>T\<close> (a power of two or not), the
  reduction tree of \<^verbatim>\<open>Reduction\<close> merges each thread \<open>t\<close> from 1 to \<open>T - 1\<close>
  exactly once. \<^verbatim>\<open>Reduction\<close> runs the levels of the loop guard one after the
  other, a level runs the block under \<^verbatim>\<open>if(tid % (1 << s) == 0)\<close> for every
  thread, and among all levels \<open>s'\<close> and threads \<open>q\<close> the block calls
  \<^verbatim>\<open>ReductionStep\<close> with \<^verbatim>\<open>acc[t]\<close> as its second superaccumulator for one pair
  only: the level \<open>s\<close> with \<open>2 ^ (s - 1)\<close> the lowest set bit of \<open>t\<close> and the
  parent \<open>p\<close> that is \<open>t\<close> without that bit (\<open>p mod 2 ^ s = 0\<close> and
  \<open>t = p OR 2 ^ (s - 1) < T\<close>). That level adds the value of \<^verbatim>\<open>acc[t]\<close> to
  \<^verbatim>\<open>acc[p]\<close> and keeps the value of \<^verbatim>\<open>acc[t]\<close>, and the whole reduction leaves
  in \<^verbatim>\<open>acc[0]\<close> the sum of all values: nothing is counted twice or dropped. The
  shifts of the source are those of 32-bit integers, which bounds \<open>T\<close> by
  \<open>2 ^ 31\<close>.
\<close>

theorem each_worker_merged_once:
  assumes "0 < t" and "t < T" and "T \<le> 2 ^ 31"
  shows "\<exists>s p. filter (\<lambda>(s', p', c). c = t) (merge_schedule T) = [(s, p, t)] \<and>
           0 < s \<and> s \<in> set (level_numbers T 1) \<and> 2 ^ (s - 1) < T \<and>
           2 ^ (s - 1) dvd t \<and> \<not> 2 ^ s dvd t \<and>
           p + 2 ^ (s - 1) = t \<and> p mod 2 ^ s = 0 \<and> t = p OR 2 ^ (s - 1) \<and> p < T \<and>
           (\<forall>without_vcl st.
              Reduction without_vcl T st = run_levels without_vcl T (level_numbers T 1) st) \<and>
           (\<forall>without_vcl s' st.
              Reduction_level without_vcl T s' st =
                run_threads (merge_step without_vcl T s') [0..<T] (fold publish [0..<T] st)) \<and>
           (\<forall>without_vcl s' q st.
              merge_step without_vcl T s' q st =
                (if q mod 2 ^ s' = 0 \<and> q OR 2 ^ (s' - 1) < T
                 then call_ReductionStep without_vcl s' q (q OR 2 ^ (s' - 1)) st else Inr st)) \<and>
           (\<forall>s' q. s' \<in> set (level_numbers T 1) \<and> q < T \<longrightarrow>
              (q mod 2 ^ s' = 0 \<and> q OR 2 ^ (s' - 1) < T \<and> q OR 2 ^ (s' - 1) = t) =
              (s' = s \<and> q = p)) \<and>
           (\<forall>without_vcl st.
              merge_step without_vcl T s p st = call_ReductionStep without_vcl s p t st) \<and>
           (\<forall>without_vcl st st'.
              Reduction_level without_vcl T s st = Inr st' \<and> acc_shape T st \<longrightarrow>
              acc_value st' p = acc_value st p + acc_value st t \<and>
              acc_value st' t = acc_value st t) \<and>
           (\<forall>without_vcl st st'.
              Reduction without_vcl T st = Inr st' \<and> acc_shape T st \<longrightarrow>
              acc_value st' 0 = (\<Sum>u<T. acc_value st u))"
proof -
  from child_once [OF assms] obtain s p where
    f: "filter (\<lambda>(s', p', c). c = t) (merge_schedule T) = [(s, p, t)]"
    and s: "0 < s" and lev: "s \<in> set (level_numbers T 1)" and hT: "2 ^ (s - 1) < T"
    and d: "2 ^ (s - 1) dvd t" and nd: "\<not> 2 ^ s dvd t"
    and pt: "p + 2 ^ (s - 1) = t" and pm: "p mod 2 ^ s = 0" and por: "t = p OR 2 ^ (s - 1)"
    and pT: "p < T"
    by (elim exE conjE)
  from assms(1,2) have T: "0 < T" by simp
  have lv: "0 < s'" if "s' \<in> set (level_numbers T 1)" for s'
    using level_numbers_distinct [of T 1] that by auto
  have uniq: "\<forall>s' q. s' \<in> set (level_numbers T 1) \<and> q < T \<longrightarrow>
              (q mod 2 ^ s' = 0 \<and> q OR 2 ^ (s' - 1) < T \<and> q OR 2 ^ (s' - 1) = t) =
              (s' = s \<and> q = p)"
  proof (intro allI impI, elim conjE)
    fix s' q assume "s' \<in> set (level_numbers T 1)"
    then have "0 < s'" by (rule lv)
    from child_level_unique [OF s pm pt assms(2) this]
    show "(q mod 2 ^ s' = 0 \<and> q OR 2 ^ (s' - 1) < T \<and> q OR 2 ^ (s' - 1) = t) =
              (s' = s \<and> q = p)" .
  qed
  have ms: "\<forall>without_vcl st.
      merge_step without_vcl T s p st = call_ReductionStep without_vcl s p t st"
    using pm por assms(2) by (simp add: merge_step_unfold)
  have lvl: "\<forall>without_vcl st st'.
      Reduction_level without_vcl T s st = Inr st' \<and> acc_shape T st \<longrightarrow>
      acc_value st' p = acc_value st p + acc_value st t \<and> acc_value st' t = acc_value st t"
  proof (intro allI impI, elim conjE)
    fix without_vcl st st'
    assume r: "Reduction_level without_vcl T s st = Inr st'" and sh: "acc_shape T st"
    from level_adds_child [OF r sh s pm pt assms(2) nd]
    show "acc_value st' p = acc_value st p + acc_value st t \<and> acc_value st' t = acc_value st t"
      by (rule conjI)
  qed
  have tot: "\<forall>without_vcl st st'.
      Reduction without_vcl T st = Inr st' \<and> acc_shape T st \<longrightarrow>
      acc_value st' 0 = (\<Sum>u<T. acc_value st u)"
  proof (intro allI impI, elim conjE)
    fix without_vcl st st'
    assume r: "Reduction without_vcl T st = Inr st'" and sh: "acc_shape T st"
    show "acc_value st' 0 = (\<Sum>u<T. acc_value st u)"
      by (rule Reduction_sum(1) [OF r T sh])
  qed
  have run: "\<forall>without_vcl st.
      Reduction without_vcl T st = run_levels without_vcl T (level_numbers T 1) st"
    by (intro allI) (rule Reduction_run_levels [OF assms(3)])
  have rl: "\<forall>without_vcl s' st.
      Reduction_level without_vcl T s' st =
        run_threads (merge_step without_vcl T s') [0..<T] (fold publish [0..<T] st)"
    by (simp add: Reduction_level_def)
  have mu: "\<forall>without_vcl s' q st.
      merge_step without_vcl T s' q st =
        (if q mod 2 ^ s' = 0 \<and> q OR 2 ^ (s' - 1) < T
         then call_ReductionStep without_vcl s' q (q OR 2 ^ (s' - 1)) st else Inr st)"
    by (intro allI) (rule merge_step_unfold)
  show ?thesis
    by (rule exI [of _ s], rule exI [of _ p])
      (intro conjI f s lev hT d nd pt pm por pT run rl mu uniq ms lvl tot)
qed

theorem each_worker_merged_once_witness:
  "(0::nat) < 3 \<and> (3::nat) < 5 \<and> (5::nat) \<le> 2 ^ 31 \<and>
   filter (\<lambda>(s', p', c). c = 3) (merge_schedule 5) = [(1, 2, 3)] \<and>
   (2::nat) mod 2 ^ 1 = 0 \<and> (3::nat) = 2 OR 2 ^ (1 - 1) \<and>
   1 \<in> set (level_numbers 5 1) \<and>
   Reduction_level False 5 1
     \<lparr>acc = [1 # replicate 38 0, 2 # replicate 38 0, 3 # replicate 38 0, 4 # replicate 38 0,
             5 # replicate 38 0], ready = [0, 0, 0, 0, 0]\<rparr> =
     Inr \<lparr>acc = [3 # replicate 38 0, 2 # replicate 38 0, 7 # replicate 38 0, 4 # replicate 38 0,
             5 # replicate 38 0], ready = [1, 1, 1, 1, 1]\<rparr> \<and>
   logical_value (7 # replicate 38 0) =
     logical_value (3 # replicate 38 0) + logical_value (4 # replicate 38 0) \<and>
   merge_step False 5 1 2
     \<lparr>acc = [1 # replicate 38 0, 2 # replicate 38 0, 3 # replicate 38 0, 4 # replicate 38 0,
             5 # replicate 38 0], ready = [1, 1, 1, 1, 1]\<rparr> =
   call_ReductionStep False 1 2 3
     \<lparr>acc = [1 # replicate 38 0, 2 # replicate 38 0, 3 # replicate 38 0, 4 # replicate 38 0,
             5 # replicate 38 0], ready = [1, 1, 1, 1, 1]\<rparr> \<and>
   Reduction False 5
     \<lparr>acc = [1 # replicate 38 0, 2 # replicate 38 0, 3 # replicate 38 0, 4 # replicate 38 0,
             5 # replicate 38 0], ready = [0, 0, 0, 0, 0]\<rparr> =
     Inr \<lparr>acc = [15 # replicate 38 0, 2 # replicate 38 0, 7 # replicate 38 0, 4 # replicate 38 0,
             5 # replicate 38 0], ready = [3, 3, 3, 3, 3]\<rparr> \<and>
   logical_value (15 # replicate 38 0) =
     logical_value (1 # replicate 38 0) + logical_value (2 # replicate 38 0) +
     logical_value (3 # replicate 38 0) + logical_value (4 # replicate 38 0) +
     logical_value (5 # replicate 38 0)"
proof -
  let ?st = "\<lparr>acc = [1 # replicate 38 0, 2 # replicate 38 0, 3 # replicate 38 0,
    4 # replicate 38 0, 5 # replicate 38 0], ready = [0, 0, 0, 0, 0]\<rparr>"
  let ?st1 = "\<lparr>acc = [3 # replicate 38 0, 2 # replicate 38 0, 7 # replicate 38 0,
    4 # replicate 38 0, 5 # replicate 38 0], ready = [1, 1, 1, 1, 1]\<rparr>"
  let ?pub = "\<lparr>acc = [1 # replicate 38 0, 2 # replicate 38 0, 3 # replicate 38 0,
    4 # replicate 38 0, 5 # replicate 38 0], ready = [1, 1, 1, 1, 1]\<rparr>"
  let ?st' = "\<lparr>acc = [15 # replicate 38 0, 2 # replicate 38 0, 7 # replicate 38 0,
    4 # replicate 38 0, 5 # replicate 38 0], ready = [3, 3, 3, 3, 3]\<rparr>"
  have h: "(0::nat) < 3" "(3::nat) < 5" "(5::nat) \<le> 2 ^ 31"
    by simp_all
  have e: "filter (\<lambda>(s', p', c). c = 3) (merge_schedule 5) = [(1, 2, 3)]"
    by code_simp
  have l1: "Reduction_level False 5 1 ?st = Inr ?st1"
    by code_simp
  have r: "Reduction False 5 ?st = Inr ?st'"
    by code_simp
  have sh: "acc_shape 5 ?st"
    by (simp add: acc_shape_def BIN_COUNT_def)
  from each_worker_merged_once [OF h] obtain s p where
    f: "filter (\<lambda>(s', p', c). c = 3) (merge_schedule 5) = [(s, p, 3)]"
    and q: "p mod 2 ^ s = 0" "3 = p OR 2 ^ (s - 1)" "s \<in> set (level_numbers 5 1)"
    and ms: "\<forall>without_vcl st.
      merge_step without_vcl 5 s p st = call_ReductionStep without_vcl s p 3 st"
    and lvl: "\<forall>without_vcl st st'.
      Reduction_level without_vcl 5 s st = Inr st' \<and> acc_shape 5 st \<longrightarrow>
      acc_value st' p = acc_value st p + acc_value st 3 \<and> acc_value st' 3 = acc_value st 3"
    and tot: "\<forall>without_vcl st st'.
      Reduction without_vcl 5 st = Inr st' \<and> acc_shape 5 st \<longrightarrow>
      acc_value st' 0 = (\<Sum>u<5. acc_value st u)"
    by (elim exE conjE)
  from f e have sp: "s = 1" "p = 2" by simp_all
  from lvl l1 sh have "acc_value ?st1 2 = acc_value ?st 2 + acc_value ?st 3"
    unfolding sp by blast
  then have v1: "logical_value (7 # replicate 38 0) =
     logical_value (3 # replicate 38 0) + logical_value (4 # replicate 38 0)"
    by (simp add: acc_value_def)
  from tot r sh have "acc_value ?st' 0 = (\<Sum>u<5. acc_value ?st u)"
    by blast
  then have v2: "logical_value (15 # replicate 38 0) =
     logical_value (1 # replicate 38 0) + logical_value (2 # replicate 38 0) +
     logical_value (3 # replicate 38 0) + logical_value (4 # replicate 38 0) +
     logical_value (5 # replicate 38 0)"
    by (simp add: acc_value_def eval_nat_numeral lessThan_Suc)
  from ms have m: "merge_step False 5 1 2 ?pub = call_ReductionStep False 1 2 3 ?pub"
    unfolding sp by blast
  from q have q': "(2::nat) mod 2 ^ 1 = 0" "(3::nat) = 2 OR 2 ^ (1 - 1)"
    "1 \<in> set (level_numbers 5 1)" unfolding sp by simp_all
  from h e q' l1 v1 m r v2 show ?thesis by (intro conjI)
qed


section \<open>What the threads accumulate\<close>

lemma map2_vec8d:
  "map2 g (make_vcl_vec8d a i) (make_vcl_vec8d b i) = map (\<lambda>j. g (a j) (b j)) [i..i + 7]"
proof -
  have "map2 g (make_vcl_vec8d a i) (make_vcl_vec8d b i) =
      map (\<lambda>j. g (a j) (b j)) (map (\<lambda>k. i + int k) [0..<8])"
    unfolding make_vcl_vec8d_def by (simp only: map2_map_map map_map comp_def)
  also have "map (\<lambda>k. i + int k) [0..<8] = [i..i + 7]"
    using map_upto [of i 8] by (simp add: add.commute)
  finally show ?thesis .
qed

lemma map2_vec8d_partial:
  fixes a b :: "int \<Rightarrow> 'v::zero"
  assumes "0 < n" "n < 8"
  shows "map2 g (make_vcl_vec8d_partial a r n) (make_vcl_vec8d_partial b r n) =
     map (\<lambda>j. g (a j) (b j)) [r..r + n - 1] @ replicate (nat (8 - n)) (g 0 0)"
proof -
  let ?pa = "\<lambda>k. if int k < n then a (r + int k) else 0"
  let ?pb = "\<lambda>k. if int k < n then b (r + int k) else 0"
  have "map2 g (make_vcl_vec8d_partial a r n) (make_vcl_vec8d_partial b r n) =
      map (\<lambda>k. g (?pa k) (?pb k)) [0..<8]"
    unfolding make_vcl_vec8d_partial_def by (simp only: map2_map_map map_map comp_def)
  also have "\<dots> = map (\<lambda>k. if int k < n then g (a (r + int k)) (b (r + int k)) else g 0 0) [0..<8]"
    by (rule map_cong [OF refl]) simp
  also have "\<dots> = map (\<lambda>k. g (a (r + int k)) (b (r + int k))) [0..<min (nat n) 8] @
      replicate (8 - nat n) (g 0 0)"
    by (rule map_if_below)
  also have "min (nat n) 8 = nat n" using assms by simp
  also have "8 - nat n = nat (8 - n)" using assms by simp
  also have "map (\<lambda>k. g (a (r + int k)) (b (r + int k))) [0..<nat n] =
      map (\<lambda>j. g (a j) (b j)) (map (\<lambda>k. r + int k) [0..<nat n])"
    by (simp only: map_map comp_def)
  also have "map (\<lambda>k. r + int k) [0..<nat n] = [r..r + n - 1]"
    using map_upto [of r "nat n"] assms by simp
  finally show ?thesis .
qed

lemma tail_cases:
  assumes "0 \<le> N" "N < 2 ^ 31" "0 < T" "T < 2 ^ 32" "t < T"
  shows "vcl_tail t T N =
    (if t + 1 = T \<and> N mod 8 \<noteq> 0 then Some (8 * (N div 8), N mod 8) else None)"
  using vcl_tail_eq [OF assms] by simp

lemma tail_count: "N mod 8 \<noteq> 0 \<Longrightarrow> 0 < N mod 8 \<and> N mod (8::int) < 8"
proof -
  assume "N mod 8 \<noteq> 0"
  moreover have "0 \<le> N mod 8" by simp
  ultimately have "0 < N mod 8" by linarith
  then show ?thesis by simp
qed

lemma tail_range: "[8 * (N div 8)..8 * (N div 8) + N mod 8 - 1] = [8 * (N div 8)..N - (1::int)]"
  by (simp add: mult_div_mod_eq)

lemma batch_x_r1:
  "TwoProductFMA_x tp (make_vcl_vec8d a i) (make_vcl_vec8d b i) =
     map (\<lambda>j. fst (tp (a j) (b j))) [i..i + 7]"
  "TwoProductFMA_r1 tp (make_vcl_vec8d a i) (make_vcl_vec8d b i) =
     map (\<lambda>j. snd (tp (a j) (b j))) [i..i + 7]"
  unfolding TwoProductFMA_x_def TwoProductFMA_r1_def by (rule map2_vec8d)+

lemma tail_x_r1:
  fixes a b :: "int \<Rightarrow> 'v::zero"
  assumes "N mod 8 \<noteq> 0"
  shows "TwoProductFMA_x tp (make_vcl_vec8d_partial a (8 * (N div 8)) (N mod 8))
           (make_vcl_vec8d_partial b (8 * (N div 8)) (N mod 8)) =
         map (\<lambda>j. fst (tp (a j) (b j))) [8 * (N div 8)..N - 1] @
           replicate (nat (8 - N mod 8)) (fst (tp 0 0))"
    and "TwoProductFMA_r1 tp (make_vcl_vec8d_partial a (8 * (N div 8)) (N mod 8))
           (make_vcl_vec8d_partial b (8 * (N div 8)) (N mod 8)) =
         map (\<lambda>j. snd (tp (a j) (b j))) [8 * (N div 8)..N - 1] @
           replicate (nat (8 - N mod 8)) (snd (tp 0 0))"
proof -
  from tail_count [OF assms] have n1: "0 < N mod 8" and n2: "N mod 8 < 8" by simp_all
  show "TwoProductFMA_x tp (make_vcl_vec8d_partial a (8 * (N div 8)) (N mod 8))
           (make_vcl_vec8d_partial b (8 * (N div 8)) (N mod 8)) =
         map (\<lambda>j. fst (tp (a j) (b j))) [8 * (N div 8)..N - 1] @
           replicate (nat (8 - N mod 8)) (fst (tp 0 0))"
    unfolding TwoProductFMA_x_def tail_range [symmetric]
    by (rule map2_vec8d_partial [OF n1 n2])
  show "TwoProductFMA_r1 tp (make_vcl_vec8d_partial a (8 * (N div 8)) (N mod 8))
           (make_vcl_vec8d_partial b (8 * (N div 8)) (N mod 8)) =
         map (\<lambda>j. snd (tp (a j) (b j))) [8 * (N div 8)..N - 1] @
           replicate (nat (8 - N mod 8)) (snd (tp 0 0))"
    unfolding TwoProductFMA_r1_def tail_range [symmetric]
    by (rule map2_vec8d_partial [OF n1 n2])
qed

lemma vcl_fed2_lanes:
  fixes a b :: "int \<Rightarrow> 'v::zero"
  assumes "0 \<le> N" "N < 2 ^ 31" "0 < T" "T < 2 ^ 32" "t < T"
  shows "vcl_fed2 tp t T N a b =
     concat (map (\<lambda>i. [map (\<lambda>j. fst (tp (a j) (b j))) [i..i + 7],
                        map (\<lambda>j. snd (tp (a j) (b j))) [i..i + 7]]) (vcl_batches t T N)) @
     (if t + 1 = T \<and> N mod 8 \<noteq> 0
      then [map (\<lambda>j. fst (tp (a j) (b j))) [8 * (N div 8)..N - 1] @
              replicate (nat (8 - N mod 8)) (fst (tp 0 0)),
            map (\<lambda>j. snd (tp (a j) (b j))) [8 * (N div 8)..N - 1] @
              replicate (nat (8 - N mod 8)) (snd (tp 0 0))]
      else [])"
proof (cases "t + 1 = T \<and> N mod 8 \<noteq> 0")
  case True
  then have n: "N mod 8 \<noteq> 0" by simp
  from True have tl: "vcl_tail t T N = Some (8 * (N div 8), N mod 8)"
    by (simp add: tail_cases [OF assms])
  show ?thesis
    unfolding vcl_fed2_def tl batch_x_r1 using True
    by (simp add: tail_x_r1 [OF n])
next
  case False
  then have tl: "vcl_tail t T N = None"
    by (simp add: tail_cases [OF assms])
  show ?thesis
    unfolding vcl_fed2_def tl batch_x_r1 using False by simp
qed

lemma vcl_indices_ranges:
  assumes "0 \<le> N" "N < 2 ^ 31" "0 < T" "T < 2 ^ 32" "t < T"
  shows "vcl_indices t T N =
     concat (map (\<lambda>i. [i..i + 7]) (vcl_batches t T N)) @
     (if t + 1 = T \<and> N mod 8 \<noteq> 0 then [8 * (N div 8)..N - 1] else [])"
proof -
  have v: "map (\<lambda>k. i + int k) [0..<8] = [i..i + 7]" for i :: int
    using map_upto [of i 8] by (simp add: add.commute)
  show ?thesis
  proof (cases "t + 1 = T \<and> N mod 8 \<noteq> 0")
    case True
    note n = tail_count [of N]
    from True have tl: "vcl_tail t T N = Some (8 * (N div 8), N mod 8)"
      by (simp add: tail_cases [OF assms])
    from True n have n1: "0 < N mod 8" and n2: "N mod 8 < 8" by simp_all
    have f: "filter (\<lambda>k. int k < N mod 8) [0..<8] = [0..<nat (N mod 8)]"
      using n2 by (simp add: filter_below del: upt_Suc)
    have m: "map (\<lambda>k. 8 * (N div 8) + int k) [0..<nat (N mod 8)] = [8 * (N div 8)..N - 1]"
      using map_upto [of "8 * (N div 8)" "nat (N mod 8)"] n1 by (simp add: tail_range)
    show ?thesis
      unfolding vcl_indices_def tl v using True by (simp add: f m del: upt_Suc)
  next
    case False
    then have tl: "vcl_tail t T N = None"
      by (simp add: tail_cases [OF assms])
    from False have c: "(t + 1 = T \<and> N mod 8 \<noteq> 0) = False" by simp
    show ?thesis
      unfolding vcl_indices_def tl v c by simp
  qed
qed

lemma vcl_fed2_thread_sum:
  fixes a b :: "int \<Rightarrow> 'v::zero" and R :: "'v \<Rightarrow> real"
  assumes "0 \<le> N" "N < 2 ^ 31" "0 < T" "T < 2 ^ 32" "t < T"
  shows "sum_list (map (lane_sum R) (vcl_fed2 tp t T N a b)) =
     sum_list (map (\<lambda>j. R (fst (tp (a j) (b j))) + R (snd (tp (a j) (b j)))) (vcl_indices t T N)) +
     (if t + 1 = T \<and> N mod 8 \<noteq> 0
      then real (nat (8 - N mod 8)) * (R (fst (tp 0 0)) + R (snd (tp 0 0))) else 0)"
proof -
  let ?g = "\<lambda>j. R (fst (tp (a j) (b j))) + R (snd (tp (a j) (b j)))"
  have main: "sum_list (map (lane_sum R)
      (concat (map (\<lambda>i. [map (\<lambda>j. fst (tp (a j) (b j))) [i..i + 7],
                        map (\<lambda>j. snd (tp (a j) (b j))) [i..i + 7]]) bs))) =
     sum_list (map ?g (concat (map (\<lambda>i. [i..i + 7]) bs)))" for bs
    by (induction bs) (simp_all add: lane_sum_def comp_def sum_list_addf)
  have tl: "lane_sum R (map (\<lambda>j. fst (tp (a j) (b j))) xs @ replicate k (fst (tp 0 0))) +
      lane_sum R (map (\<lambda>j. snd (tp (a j) (b j))) xs @ replicate k (snd (tp 0 0))) =
      sum_list (map ?g xs) + real k * (R (fst (tp 0 0)) + R (snd (tp 0 0)))" for xs k
    by (simp add: lane_sum_def comp_def sum_list_addf sum_list_replicate algebra_simps)
  show ?thesis
    unfolding vcl_fed2_lanes [OF assms] vcl_indices_ranges [OF assms]
    using tl [of "[8 * (N div 8)..N - 1]" "nat (8 - N mod 8)"]
    by (simp add: main)
qed

lemma sum_last_thread:
  fixes c :: real and T :: nat
  assumes "0 < T"
  shows "(\<Sum>t<T. if t + 1 = T \<and> P then c else 0) = (if P then c else 0)"
proof -
  from assms obtain T' where T': "T = Suc T'" by (cases T) simp_all
  have "(\<Sum>t<T'. if t + 1 = Suc T' \<and> P then c else 0) = (\<Sum>t<T'. 0)"
    by (rule sum.cong) auto
  then show ?thesis by (simp add: T')
qed

lemma vcl_fed2_total:
  fixes a b :: "int \<Rightarrow> 'v::zero" and R :: "'v \<Rightarrow> real"
  assumes "0 \<le> N" "N < 2 ^ 31" "0 < T" "T < 2 ^ 32"
  shows "(\<Sum>t<T. sum_list (map (lane_sum R) (vcl_fed2 tp t T N a b))) =
     (\<Sum>i = 0..<N. R (fst (tp (a i) (b i))) + R (snd (tp (a i) (b i)))) +
     real (nat ((- N) mod 8)) * (R (fst (tp 0 0)) + R (snd (tp 0 0)))"
proof -
  let ?g = "\<lambda>j. R (fst (tp (a j) (b j))) + R (snd (tp (a j) (b j)))"
  let ?z = "R (fst (tp 0 0)) + R (snd (tp 0 0))"
  have "(\<Sum>t<T. sum_list (map (lane_sum R) (vcl_fed2 tp t T N a b))) =
      (\<Sum>t<T. sum_list (map ?g (vcl_indices t T N)) +
        (if t + 1 = T \<and> N mod 8 \<noteq> 0 then real (nat (8 - N mod 8)) * ?z else 0))"
    by (rule sum.cong [OF refl]) (simp add: vcl_fed2_thread_sum [OF assms])
  also have "\<dots> = (\<Sum>t<T. sum_list (map ?g (vcl_indices t T N))) +
      (\<Sum>t<T. if t + 1 = T \<and> N mod 8 \<noteq> 0 then real (nat (8 - N mod 8)) * ?z else 0)"
    by (rule sum.distrib)
  also have "(\<Sum>t<T. sum_list (map ?g (vcl_indices t T N))) = (\<Sum>i = 0..<N. ?g i)"
    by (simp only: sum_list_threads vcl_concat [OF assms] sum_list_upto)
  also have "(\<Sum>t<T. if t + 1 = T \<and> N mod 8 \<noteq> 0 then real (nat (8 - N mod 8)) * ?z else 0) =
      (if N mod 8 \<noteq> 0 then real (nat (8 - N mod 8)) * ?z else 0)"
    by (rule sum_last_thread [OF assms(3)])
  also have "\<dots> = real (nat ((- N) mod 8)) * ?z"
    using pad_count [of N] tail_count [of N] by (auto simp: nat_diff_distrib')
  finally show ?thesis .
qed



text \<open>
  Claim C4. With \<open>N\<close> inputs and \<open>T\<close> threads, the vector build gives thread \<open>t\<close>
  the batches from \<open>l\<close> up to \<open>r\<close>, with \<open>l\<close> the quotient \<open>t * N / T\<close> and \<open>r + 1\<close>
  the quotient \<open>(t + 1) * N / T\<close>, both rounded down to a multiple of 8. Only the
  last thread takes a partial batch, from \<open>r + 1 = 8 * (N div 8)\<close> with
  \<open>N mod 8\<close> elements, when \<open>N\<close> is not a multiple of 8. What a thread hands to
  \<^verbatim>\<open>cache.Accumulate\<close> is, for each of its batches, the vector of the products
  and the vector of the error terms of the eight elements from the batch index
  on, and for the partial batch the two vectors of the elements up to \<open>N - 1\<close>,
  filled up with the product pair of zero and zero. The indices of the
  elements a thread accumulates, one thread after the other, are the indices
  from 0 to \<open>N - 1\<close>, each once: every index is accumulated by exactly one
  thread, and whatever weight the lanes are given, the lanes accumulated by all
  threads weigh what the product pairs of the \<open>N\<close> elements weigh, and the
  lanes beyond \<open>N\<close> what as many product pairs of zero and zero weigh. \<open>N\<close> is
  an \<^verbatim>\<open>int\<close> and \<open>T\<close> an \<^verbatim>\<open>unsigned int\<close>, which bounds them.
\<close>

theorem vcl_partition:
  fixes N :: int and T :: nat and a b :: "int \<Rightarrow> 'v::zero" and tp :: "'v \<Rightarrow> 'v \<Rightarrow> 'v \<times> 'v"
  assumes "0 \<le> N" "N < 2 ^ 31" "0 < T" "T < 2 ^ 32"
  shows "(\<forall>t<T. vcl_l t T N = 8 * ((int t * N div int T) div 8) \<and>
            vcl_r t T N + 1 = 8 * ((int (t + 1) * N div int T) div 8) \<and>
            concat (map (\<lambda>i. map (\<lambda>k. i + int k) [0..<8]) (vcl_batches t T N)) =
              [vcl_l t T N..vcl_r t T N] \<and>
            vcl_tail t T N =
              (if t + 1 = T \<and> N mod 8 \<noteq> 0 then Some (vcl_r t T N + 1, N mod 8) else None) \<and>
            vcl_fed2 tp t T N a b =
              concat (map (\<lambda>i. [map (\<lambda>j. fst (tp (a j) (b j))) [i..i + 7],
                                 map (\<lambda>j. snd (tp (a j) (b j))) [i..i + 7]])
                (vcl_batches t T N)) @
              (if t + 1 = T \<and> N mod 8 \<noteq> 0
               then [map (\<lambda>j. fst (tp (a j) (b j))) [8 * (N div 8)..N - 1] @
                       replicate (nat (8 - N mod 8)) (fst (tp 0 0)),
                     map (\<lambda>j. snd (tp (a j) (b j))) [8 * (N div 8)..N - 1] @
                       replicate (nat (8 - N mod 8)) (snd (tp 0 0))]
               else []) \<and>
            vcl_indices t T N =
              concat (map (\<lambda>i. [i..i + 7]) (vcl_batches t T N)) @
              (if t + 1 = T \<and> N mod 8 \<noteq> 0 then [8 * (N div 8)..N - 1] else []) \<and>
            (\<forall>R :: 'v \<Rightarrow> real.
               sum_list (map (lane_sum R) (vcl_fed2 tp t T N a b)) =
                 sum_list (map (\<lambda>j. R (fst (tp (a j) (b j))) + R (snd (tp (a j) (b j))))
                   (vcl_indices t T N)) +
                 (if t + 1 = T \<and> N mod 8 \<noteq> 0
                  then real (nat (8 - N mod 8)) * (R (fst (tp 0 0)) + R (snd (tp 0 0)))
                  else 0))) \<and>
         vcl_r (T - 1) T N + 1 = 8 * (N div 8) \<and>
         concat (map (\<lambda>t. vcl_indices t T N) [0..<T]) = [0..N - 1] \<and>
         (\<forall>i. 0 \<le> i \<and> i < N \<longrightarrow> (\<exists>!t. t < T \<and> i \<in> set (vcl_indices t T N))) \<and>
         (\<forall>(a :: int \<Rightarrow> 'v::zero) b tp r n k. k < 8 \<and> n \<le> int k \<longrightarrow>
            make_vcl_vec8d_partial a r n ! k = 0 \<and>
            TwoProductFMA_x tp (make_vcl_vec8d_partial a r n) (make_vcl_vec8d_partial b r n) ! k =
              fst (tp 0 0) \<and>
            TwoProductFMA_r1 tp (make_vcl_vec8d_partial a r n) (make_vcl_vec8d_partial b r n) ! k =
              snd (tp 0 0)) \<and>
         (\<forall>R :: 'v \<Rightarrow> real.
            (\<Sum>t<T. sum_list (map (lane_sum R) (vcl_fed2 tp t T N a b))) =
              (\<Sum>i = 0..<N. R (fst (tp (a i) (b i))) + R (snd (tp (a i) (b i)))) +
              real (nat ((- N) mod 8)) * (R (fst (tp 0 0)) + R (snd (tp 0 0))))"
proof (intro conjI allI impI)
  fix t assume t: "t < T"
  then have le: "t \<le> T" by simp
  show "vcl_l t T N = 8 * ((int t * N div int T) div 8)"
    by (simp add: vcl_l_eq [OF assms(1-3) le] quot8_def quot_def)
  show r: "vcl_r t T N + 1 = 8 * ((int (t + 1) * N div int T) div 8)"
    by (simp add: vcl_r_eq [OF assms t] quot8_def quot_def)
  show "concat (map (\<lambda>i. map (\<lambda>k. i + int k) [0..<8]) (vcl_batches t T N)) =
              [vcl_l t T N..vcl_r t T N]"
    by (simp add: vcl_batches_lanes [OF assms t] vcl_l_eq [OF assms(1-3) le] vcl_r_eq [OF assms t])
  have "vcl_r t T N + 1 = 8 * (N div 8)" if "t + 1 = T"
    using that assms(3) by (simp add: vcl_r_eq [OF assms t] quot8_def quot_T)
  then show "vcl_tail t T N =
              (if t + 1 = T \<and> N mod 8 \<noteq> 0 then Some (vcl_r t T N + 1, N mod 8) else None)"
    by (simp add: vcl_tail_eq [OF assms t])
  show "vcl_fed2 tp t T N a b =
              concat (map (\<lambda>i. [map (\<lambda>j. fst (tp (a j) (b j))) [i..i + 7],
                                 map (\<lambda>j. snd (tp (a j) (b j))) [i..i + 7]])
                (vcl_batches t T N)) @
              (if t + 1 = T \<and> N mod 8 \<noteq> 0
               then [map (\<lambda>j. fst (tp (a j) (b j))) [8 * (N div 8)..N - 1] @
                       replicate (nat (8 - N mod 8)) (fst (tp 0 0)),
                     map (\<lambda>j. snd (tp (a j) (b j))) [8 * (N div 8)..N - 1] @
                       replicate (nat (8 - N mod 8)) (snd (tp 0 0))]
               else [])"
    by (rule vcl_fed2_lanes [OF assms t])
  show "vcl_indices t T N =
              concat (map (\<lambda>i. [i..i + 7]) (vcl_batches t T N)) @
              (if t + 1 = T \<and> N mod 8 \<noteq> 0 then [8 * (N div 8)..N - 1] else [])"
    by (rule vcl_indices_ranges [OF assms t])
  fix R :: "'v \<Rightarrow> real"
  show "sum_list (map (lane_sum R) (vcl_fed2 tp t T N a b)) =
                 sum_list (map (\<lambda>j. R (fst (tp (a j) (b j))) + R (snd (tp (a j) (b j))))
                   (vcl_indices t T N)) +
                 (if t + 1 = T \<and> N mod 8 \<noteq> 0
                  then real (nat (8 - N mod 8)) * (R (fst (tp 0 0)) + R (snd (tp 0 0)))
                  else 0)"
    by (rule vcl_fed2_thread_sum [OF assms t])
next
  have "T - 1 < T" using assms(3) by simp
  from vcl_r_eq [OF assms this] assms(3) show "vcl_r (T - 1) T N + 1 = 8 * (N div 8)"
    by (simp add: quot8_def quot_T)
next
  show "concat (map (\<lambda>t. vcl_indices t T N) [0..<T]) = [0..N - 1]"
    by (rule vcl_concat [OF assms])
next
  fix i assume "0 \<le> i \<and> i < N"
  then show "\<exists>!t. t < T \<and> i \<in> set (vcl_indices t T N)"
    using vcl_unique_worker [OF assms] by simp
next
  fix a b :: "int \<Rightarrow> 'v" and tp :: "'v \<Rightarrow> 'v \<Rightarrow> 'v \<times> 'v" and r n :: int and k :: nat
  assume k: "k < 8 \<and> n \<le> int k"
  then have k1: "k < 8" and k2: "n \<le> int k" by simp_all
  note z = partial_zero_lanes [OF k1 k2]
  show "make_vcl_vec8d_partial a r n ! k = 0" by (rule z(1))
  show "TwoProductFMA_x tp (make_vcl_vec8d_partial a r n) (make_vcl_vec8d_partial b r n) ! k =
              fst (tp 0 0)" by (rule z(2))
  show "TwoProductFMA_r1 tp (make_vcl_vec8d_partial a r n) (make_vcl_vec8d_partial b r n) ! k =
              snd (tp 0 0)" by (rule z(3))
next
  fix R :: "'v \<Rightarrow> real"
  show "(\<Sum>t<T. sum_list (map (lane_sum R) (vcl_fed2 tp t T N a b))) =
              (\<Sum>i = 0..<N. R (fst (tp (a i) (b i))) + R (snd (tp (a i) (b i)))) +
              real (nat ((- N) mod 8)) * (R (fst (tp 0 0)) + R (snd (tp 0 0)))"
    by (rule vcl_fed2_total [OF assms])
qed

theorem vcl_partition_witness:
  "(0::int) \<le> 50 \<and> (50::int) < 2 ^ 31 \<and> (0::nat) < 3 \<and> (3::nat) < 2 ^ 32 \<and>
   concat (map (\<lambda>t. vcl_indices t 3 50) [0..<3]) = [0..50 - 1] \<and>
   vcl_l 1 3 50 = 16 \<and> vcl_r 1 3 50 + 1 = 32 \<and>
   vcl_tail 2 3 50 = Some (vcl_r 2 3 50 + 1, 2) \<and> vcl_r 2 3 50 + 1 = 48 \<and>
   vcl_batches 2 3 50 = [32, 40] \<and>
   vcl_fed2 int_TwoProductFMA 2 3 50 (\<lambda>i. i + 1) (\<lambda>i. 2) =
     [[66, 68, 70, 72, 74, 76, 78, 80], [0, 0, 0, 0, 0, 0, 0, 0],
      [82, 84, 86, 88, 90, 92, 94, 96], [0, 0, 0, 0, 0, 0, 0, 0],
      [98, 100, 0, 0, 0, 0, 0, 0], [0, 0, 0, 0, 0, 0, 0, 0]] \<and>
   vcl_fed2 int_TwoProductFMA 2 3 50 (\<lambda>i. i + 1) (\<lambda>i. 2) =
     concat (map (\<lambda>i. [map (\<lambda>j. fst (int_TwoProductFMA (j + 1) 2)) [i..i + 7],
                        map (\<lambda>j. snd (int_TwoProductFMA (j + 1) 2)) [i..i + 7]])
       (vcl_batches 2 3 50)) @
     [map (\<lambda>j. fst (int_TwoProductFMA (j + 1) 2)) [48..49] @
        replicate 6 (fst (int_TwoProductFMA 0 0)),
      map (\<lambda>j. snd (int_TwoProductFMA (j + 1) 2)) [48..49] @
        replicate 6 (snd (int_TwoProductFMA 0 0))] \<and>
   vcl_indices 2 3 50 = concat (map (\<lambda>i. [i..i + 7]) (vcl_batches 2 3 50)) @ [48..49] \<and>
   (\<Sum>t<3. sum_list (map (lane_sum real_of_int)
       (vcl_fed2 int_TwoProductFMA t 3 50 (\<lambda>i. i + 1) (\<lambda>i. 2)))) =
     (\<Sum>i = 0..<50. real_of_int (fst (int_TwoProductFMA (i + 1) 2)) +
        real_of_int (snd (int_TwoProductFMA (i + 1) 2))) +
     real (nat ((- 50) mod 8)) *
       (real_of_int (fst (int_TwoProductFMA 0 0)) + real_of_int (snd (int_TwoProductFMA 0 0)))"
proof -
  let ?a = "\<lambda>i::int. i + 1" and ?b = "\<lambda>i::int. 2::int"
  have h: "(0::int) \<le> 50" "(50::int) < 2 ^ 31" "(0::nat) < 3" "(3::nat) < 2 ^ 32"
    by simp_all
  note p = vcl_partition [of 50 3 int_TwoProductFMA ?a ?b, OF h]
  note p1 = conjunct1 [OF p]
  note p2 = conjunct2 [OF p]
  have t1: "(1::nat) < 3" and t2: "(2::nat) < 3" by simp_all
  note q1 = p1 [rule_format, OF t1]
  note q2 = p1 [rule_format, OF t2]
  from q1 have a1: "vcl_l 1 3 50 = 16" "vcl_r 1 3 50 + 1 = 32"
    by simp_all
  from q2 have a2: "vcl_tail 2 3 50 = Some (vcl_r 2 3 50 + 1, 2)" "vcl_r 2 3 50 + 1 = 48"
    by simp_all
  from p2 have c: "concat (map (\<lambda>t. vcl_indices t 3 50) [0..<3]) = [0..50 - 1]"
    by (elim conjE)
  have bt: "vcl_batches 2 3 50 = [32, 40]"
    by code_simp
  have fd: "vcl_fed2 int_TwoProductFMA 2 3 50 ?a ?b =
     [[66, 68, 70, 72, 74, 76, 78, 80], [0, 0, 0, 0, 0, 0, 0, 0],
      [82, 84, 86, 88, 90, 92, 94, 96], [0, 0, 0, 0, 0, 0, 0, 0],
      [98, 100, 0, 0, 0, 0, 0, 0], [0, 0, 0, 0, 0, 0, 0, 0]]"
    by code_simp
  have m: "(50::int) mod 8 = 2" "8 * ((50::int) div 8) = 48" "nat (8 - 2) = 6" "(50::int) - 1 = 49"
    by simp_all
  from q2 have fl: "vcl_fed2 int_TwoProductFMA 2 3 50 ?a ?b =
     concat (map (\<lambda>i. [map (\<lambda>j. fst (int_TwoProductFMA (j + 1) 2)) [i..i + 7],
                        map (\<lambda>j. snd (int_TwoProductFMA (j + 1) 2)) [i..i + 7]])
       (vcl_batches 2 3 50)) @
     [map (\<lambda>j. fst (int_TwoProductFMA (j + 1) 2)) [48..49] @
        replicate 6 (fst (int_TwoProductFMA 0 0)),
      map (\<lambda>j. snd (int_TwoProductFMA (j + 1) 2)) [48..49] @
        replicate 6 (snd (int_TwoProductFMA 0 0))]"
    and ix: "vcl_indices 2 3 50 = concat (map (\<lambda>i. [i..i + 7]) (vcl_batches 2 3 50)) @ [48..49]"
    unfolding m by (simp_all only: m if_True simp_thms one_add_one numeral_plus_one
        numeral_eq_iff semiring_norm)
  note p3 = p2 [THEN conjunct2, THEN conjunct2, THEN conjunct2, THEN conjunct2]
  from p3 have tot: "(\<Sum>t<3. sum_list (map (lane_sum real_of_int)
       (vcl_fed2 int_TwoProductFMA t 3 50 ?a ?b))) =
     (\<Sum>i = 0..<50. real_of_int (fst (int_TwoProductFMA (i + 1) 2)) +
        real_of_int (snd (int_TwoProductFMA (i + 1) 2))) +
     real (nat ((- 50) mod 8)) *
       (real_of_int (fst (int_TwoProductFMA 0 0)) + real_of_int (snd (int_TwoProductFMA 0 0)))"
    by (rule spec)
  from h c a1 a2 bt fd fl ix tot show ?thesis by (intro conjI)
qed

end
